theory Spec2Isabelle
  imports Main "HOL-Library.Word"
begin

section \<open>JavaScript strings\<close>

text \<open>
  A JavaScript string is a sequence of UTF-16 code units. \<open>pattern[i]\<close> and
  \<open>split('')\<close> read one code unit; \<open>for (const char of s)\<close> reads one code point,
  that is a surrogate pair as one two-unit string and every other unit alone.
  A \<open>char\<close> of the source is therefore a short string of its own.
\<close>

type_synonym jsstring = "16 word list"

definition js :: "string \<Rightarrow> jsstring" where
  "js s = map of_char s"

definition isHighSurrogate :: "16 word \<Rightarrow> bool" where
  "isHighSurrogate u \<longleftrightarrow> 0xD800 \<le> u \<and> u \<le> 0xDBFF"

definition isLowSurrogate :: "16 word \<Rightarrow> bool" where
  "isLowSurrogate u \<longleftrightarrow> 0xDC00 \<le> u \<and> u \<le> 0xDFFF"

text \<open>The string iterator behind \<open>for ... of\<close>.\<close>

fun codePoints :: "jsstring \<Rightarrow> jsstring list" where
  "codePoints [] = []"
| "codePoints [u] = [[u]]"
| "codePoints (u # v # rest) =
     (if isHighSurrogate u \<and> isLowSurrogate v then [u, v] # codePoints rest
      else [u] # codePoints (v # rest))"

text \<open>\<open>s.split('')\<close>: one string per code unit.\<close>

definition split_units :: "jsstring \<Rightarrow> jsstring list" where
  "split_units s = map (\<lambda>u. [u]) s"

text \<open>The characters the source compares against, and the label \<open>'\<epsilon>'\<close> (U+03B5).\<close>

definition LPAREN :: jsstring where "LPAREN = [0x28]"
definition RPAREN :: jsstring where "RPAREN = [0x29]"
definition STAR :: jsstring where "STAR = [0x2A]"
definition DOT :: jsstring where "DOT = [0x2E]"
definition BAR :: jsstring where "BAR = [0x7C]"
definition EPSILON :: jsstring where "EPSILON = [0x3B5]"

text \<open>
  The three character classes of the source's regular expressions, on one code unit,
  and \<open>RegExp.test\<close> on a string: some unit of the string is in the class.
\<close>

definition alnum_unit :: "16 word \<Rightarrow> bool" where
  "alnum_unit u \<longleftrightarrow>
     (0x61 \<le> u \<and> u \<le> 0x7A) \<or> (0x41 \<le> u \<and> u \<le> 0x5A) \<or> (0x30 \<le> u \<and> u \<le> 0x39)"

definition c1_unit :: "16 word \<Rightarrow> bool" where
  "c1_unit u \<longleftrightarrow> alnum_unit u \<or> u = 0x2A \<or> u = 0x29"

definition c2_unit :: "16 word \<Rightarrow> bool" where
  "c2_unit u \<longleftrightarrow> alnum_unit u \<or> u = 0x28"

definition regex_test :: "(16 word \<Rightarrow> bool) \<Rightarrow> jsstring \<Rightarrow> bool" where
  "regex_test cls s = list_ex cls s"

section \<open>insertConcat\<close>

text \<open>
  The body of the \<open>for\<close> loop at index \<open>i\<close>, and the loop itself. \<open>pattern[i]\<close> is
  read only under \<open>i < pattern.length\<close>, and \<open>pattern[i + 1]\<close> only under
  \<open>i + 1 < pattern.length\<close>.
\<close>

definition insertConcat_body :: "jsstring \<Rightarrow> nat \<Rightarrow> jsstring \<Rightarrow> jsstring" where
  "insertConcat_body pattern i res =
     (let c1 = [pattern ! i];
          res = res @ c1
      in if i + 1 < length pattern then
           (let c2 = [pattern ! (i + 1)];
                isC1Alphanum = regex_test c1_unit c1;
                isC2Alphanum = regex_test c2_unit c2
            in if isC1Alphanum \<and> isC2Alphanum then res @ DOT else res)
         else res)"

function insertConcat_loop :: "jsstring \<Rightarrow> nat \<Rightarrow> jsstring \<Rightarrow> jsstring" where
  "insertConcat_loop pattern i res =
     (if i < length pattern
      then insertConcat_loop pattern (i + 1) (insertConcat_body pattern i res)
      else res)"
  by pat_completeness auto
termination
  by (relation "measure (\<lambda>(pattern, i, res). length pattern - i)") auto

declare insertConcat_loop.simps [simp del]

definition insertConcat :: "jsstring \<Rightarrow> jsstring" where
  "insertConcat pattern = insertConcat_loop pattern 0 []"

section \<open>toPostfix\<close>

text \<open>
  The object literal \<open>{ '*': 3, '.': 2, '|': 1 }\<close>: a lookup of any other key is
  \<open>undefined\<close>, here \<open>None\<close>.
\<close>

definition precedence :: "jsstring \<Rightarrow> nat option" where
  "precedence c =
     (if c = STAR then Some 3 else if c = DOT then Some 2 else if c = BAR then Some 1
      else None)"

text \<open>\<open>a >= b\<close> on numbers; with \<open>undefined\<close> on either side it is false.\<close>

definition js_ge :: "nat option \<Rightarrow> nat option \<Rightarrow> bool" where
  "js_ge a b = (case a of None \<Rightarrow> False
                | Some x \<Rightarrow> (case b of None \<Rightarrow> False | Some y \<Rightarrow> y \<le> x))"

text \<open>
  The operator stack is a list whose head is the top, \<open>stack[stack.length - 1]\<close>.
  The three \<open>while\<close> loops of the source pop one operator per iteration.
\<close>

fun pop_until_lparen :: "jsstring \<Rightarrow> jsstring list \<Rightarrow> jsstring \<times> jsstring list" where
  "pop_until_lparen output [] = (output, [])"
| "pop_until_lparen output (tp # stack) =
     (if tp \<noteq> LPAREN then pop_until_lparen (output @ tp) stack
      else (output, tp # stack))"

fun pop_while_ge :: "jsstring \<Rightarrow> jsstring \<Rightarrow> jsstring list \<Rightarrow> jsstring \<times> jsstring list" where
  "pop_while_ge char output [] = (output, [])"
| "pop_while_ge char output (tp # stack) =
     (if js_ge (precedence tp) (precedence char) then pop_while_ge char (output @ tp) stack
      else (output, tp # stack))"

fun pop_all :: "jsstring \<Rightarrow> jsstring list \<Rightarrow> jsstring" where
  "pop_all output [] = output"
| "pop_all output (tp # stack) = pop_all (output @ tp) stack"

text \<open>\<open>stack.pop()\<close> with the result dropped; on an empty array it does nothing.\<close>

definition pop_discard :: "'a list \<Rightarrow> 'a list" where
  "pop_discard stack = (case stack of [] \<Rightarrow> [] | tp # rest \<Rightarrow> rest)"

definition toPostfix_step ::
  "jsstring \<Rightarrow> jsstring \<times> jsstring list \<Rightarrow> jsstring \<times> jsstring list" where
  "toPostfix_step char acc =
     (case acc of (output, stack) \<Rightarrow>
        if regex_test alnum_unit char then (output @ char, stack)
        else if char = LPAREN then (output, char # stack)
        else if char = RPAREN then
          (case pop_until_lparen output stack of
             (output', stack') \<Rightarrow> (output', pop_discard stack'))
        else
          (case pop_while_ge char output stack of
             (output', stack') \<Rightarrow> (output', char # stack')))"

fun toPostfix_loop ::
  "jsstring list \<Rightarrow> jsstring \<times> jsstring list \<Rightarrow> jsstring \<times> jsstring list" where
  "toPostfix_loop [] acc = acc"
| "toPostfix_loop (char # rest) acc = toPostfix_loop rest (toPostfix_step char acc)"

definition toPostfix :: "jsstring \<Rightarrow> jsstring" where
  "toPostfix pattern =
     (let formatted = insertConcat pattern
      in case toPostfix_loop (codePoints formatted) ([], []) of
           (output, stack) \<Rightarrow> pop_all output stack)"

section \<open>States and fragments\<close>

text \<open>
  \<open>State\<close> objects live in an arena: a reference to a \<open>State\<close> is its index there.
  \<open>transitions\<close> is the object used as a dictionary, kept as an association list
  with one entry per key. An \<open>NFA\<close> holds the two references \<open>start\<close> and \<open>end\<close>.
  The static \<open>State.idCounter\<close> is part of the store.
\<close>

record State =
  state_id :: nat
  transitions :: "(jsstring \<times> nat list) list"
  isAccept :: bool

record NFA =
  nfa_start :: nat
  nfa_end :: nat

record store =
  states :: "State list"
  idCounter :: nat

text \<open>\<open>new State()\<close>: the fields' initialisers, then \<open>this.id = State.idCounter++\<close>.\<close>

definition new_State :: "store \<Rightarrow> nat \<times> store" where
  "new_State \<sigma> =
     (length (states \<sigma>),
      \<sigma>\<lparr>states := states \<sigma> @ [\<lparr>state_id = idCounter \<sigma>, transitions = [], isAccept = False\<rparr>],
        idCounter := idCounter \<sigma> + 1\<rparr>)"

text \<open>
  A write through a reference. A reference of the source always denotes a live object;
  an index outside the arena denotes none and the write changes nothing.
\<close>

definition modify :: "nat \<Rightarrow> (State \<Rightarrow> State) \<Rightarrow> store \<Rightarrow> store" where
  "modify a f \<sigma> = (if a < length (states \<sigma>) then \<sigma>\<lparr>states := (states \<sigma>)[a := f (states \<sigma> ! a)]\<rparr> else \<sigma>)"

text \<open>
  \<open>addTransition\<close>: \<open>if (!this.transitions[char]) this.transitions[char] = [];\<close>
  then \<open>push\<close>. An array is never falsy, so the test is for a missing key.
\<close>

fun push_transition :: "jsstring \<Rightarrow> nat \<Rightarrow> (jsstring \<times> nat list) list \<Rightarrow> (jsstring \<times> nat list) list" where
  "push_transition char next [] = [(char, [next])]"
| "push_transition char next ((k, ns) # kvs) =
     (if k = char then (k, ns @ [next]) # kvs else (k, ns) # push_transition char next kvs)"

definition addTransition :: "nat \<Rightarrow> jsstring \<Rightarrow> nat \<Rightarrow> store \<Rightarrow> store" where
  "addTransition this char next \<sigma> =
     modify this (\<lambda>s. s\<lparr>transitions := push_transition char next (transitions s)\<rparr>) \<sigma>"

definition set_isAccept :: "nat \<Rightarrow> bool \<Rightarrow> store \<Rightarrow> store" where
  "set_isAccept this b \<sigma> = modify this (\<lambda>s. s\<lparr>isAccept := b\<rparr>) \<sigma>"

section \<open>compileRegexToNFA\<close>

text \<open>
  One iteration of the loop over the postfix string. The fragment stack has its top at
  the head. \<open>stack.pop()!\<close> on an empty array is \<open>undefined\<close>, and the first property
  read on it throws a TypeError, which the \<open>catch\<close> turns into \<open>return null\<close>: the
  iteration yields \<open>None\<close>.
\<close>

definition compile_step :: "jsstring \<Rightarrow> store \<times> NFA list \<Rightarrow> (store \<times> NFA list) option" where
  "compile_step char acc =
     (case acc of (\<sigma>, stack) \<Rightarrow>
        if char = DOT then
          (case stack of
             n2 # n1 # rest \<Rightarrow>
               (let \<sigma> = set_isAccept (nfa_end n1) False \<sigma>;
                    \<sigma> = addTransition (nfa_end n1) EPSILON (nfa_start n2) \<sigma>
                in Some (\<sigma>, \<lparr>nfa_start = nfa_start n1, nfa_end = nfa_end n2\<rparr> # rest))
           | _ \<Rightarrow> None)
        else if char = BAR then
          (case stack of
             n2 # n1 # rest \<Rightarrow>
               (case new_State \<sigma> of (start, \<sigma>) \<Rightarrow>
                case new_State \<sigma> of (end, \<sigma>) \<Rightarrow>
                (let \<sigma> = addTransition start EPSILON (nfa_start n1) \<sigma>;
                     \<sigma> = addTransition start EPSILON (nfa_start n2) \<sigma>;
                     \<sigma> = set_isAccept (nfa_end n1) False \<sigma>;
                     \<sigma> = set_isAccept (nfa_end n2) False \<sigma>;
                     \<sigma> = addTransition (nfa_end n1) EPSILON end \<sigma>;
                     \<sigma> = addTransition (nfa_end n2) EPSILON end \<sigma>
                 in Some (\<sigma>, \<lparr>nfa_start = start, nfa_end = end\<rparr> # rest)))
           | _ \<Rightarrow> None)
        else if char = STAR then
          (case stack of
             n1 # rest \<Rightarrow>
               (case new_State \<sigma> of (start, \<sigma>) \<Rightarrow>
                case new_State \<sigma> of (end, \<sigma>) \<Rightarrow>
                (let \<sigma> = addTransition start EPSILON (nfa_start n1) \<sigma>;
                     \<sigma> = addTransition start EPSILON end \<sigma>;
                     \<sigma> = set_isAccept (nfa_end n1) False \<sigma>;
                     \<sigma> = addTransition (nfa_end n1) EPSILON (nfa_start n1) \<sigma>;
                     \<sigma> = addTransition (nfa_end n1) EPSILON end \<sigma>
                 in Some (\<sigma>, \<lparr>nfa_start = start, nfa_end = end\<rparr> # rest)))
           | [] \<Rightarrow> None)
        else
          (case new_State \<sigma> of (start, \<sigma>) \<Rightarrow>
           case new_State \<sigma> of (end, \<sigma>) \<Rightarrow>
           (let \<sigma> = addTransition start char end \<sigma>
            in Some (\<sigma>, \<lparr>nfa_start = start, nfa_end = end\<rparr> # stack))))"

fun compile_loop :: "jsstring list \<Rightarrow> store \<times> NFA list \<Rightarrow> (store \<times> NFA list) option" where
  "compile_loop [] acc = Some acc"
| "compile_loop (char # rest) acc =
     (case compile_step char acc of None \<Rightarrow> None | Some acc' \<Rightarrow> compile_loop rest acc')"

text \<open>
  \<open>State.idCounter = 0\<close>, the loop, then \<open>stack.pop()\<close>: the top fragment if there is
  one. The states of earlier compilations are unreachable from the new automaton, so the
  arena starts empty. The result is the arena together with the fragment, or \<open>None\<close> for
  \<open>null\<close>.
\<close>

definition init_store :: store where
  "init_store = \<lparr>states = [], idCounter = 0\<rparr>"

definition compileRegexToNFA :: "jsstring \<Rightarrow> (State list \<times> NFA) option" where
  "compileRegexToNFA pattern =
     (let postfix = toPostfix pattern
      in case compile_loop (codePoints postfix) (init_store, []) of
           None \<Rightarrow> None
         | Some (\<sigma>, stack) \<Rightarrow>
             (case stack of
                [] \<Rightarrow> None
              | finalNFA # rest \<Rightarrow>
                  Some (states (set_isAccept (nfa_end finalNFA) True \<sigma>), finalNFA)))"

section \<open>The simulation effect of RegexAutomata\<close>

text \<open>
  \<open>s.transitions[char]\<close> through a reference: the array under that key, or \<open>None\<close>
  for \<open>undefined\<close>. An index outside the arena denotes no object and has no
  transitions.
\<close>

definition read_transitions :: "State list \<Rightarrow> nat \<Rightarrow> jsstring \<Rightarrow> nat list option" where
  "read_transitions h s char =
     (if s < length h then map_of (transitions (h ! s)) char else None)"

text \<open>
  \<open>addState\<close> and the \<open>forEach\<close> inside it. A \<open>Set<State>\<close> keeps insertion order
  and is modelled by the list of its members in that order; \<open>addState\<close> mutates the set
  it is given, so the set is threaded through the calls and returned.

  \<open>addState\<close> calls itself, through \<open>forEach\<close> and the arrow function, once per link of a
  chain of epsilon transitions, and nothing in the effect catches an exception. The
  engine's call stack bounds that nesting: a call of \<open>addState\<close> that finds no room throws
  a RangeError, which leaves the effect before either setter is called. How much room
  there is belongs to the engine, not to the program: it is the parameter \<open>stack\<close>, counted
  in nested activations of \<open>addState\<close> (each with the frames of \<open>forEach\<close> and of the
  arrow function that lead to the next). Every first call of \<open>addState\<close> in the effect is
  given the same room; the frames of the loops around it are not counted.
\<close>

datatype js_error = RangeError

fun addState :: "nat \<Rightarrow> State list \<Rightarrow> nat \<Rightarrow> nat list \<Rightarrow> js_error + nat list"
  and addState_forEach :: "nat \<Rightarrow> State list \<Rightarrow> nat list \<Rightarrow> nat list \<Rightarrow> js_error + nat list" where
  "addState 0 h s visited = Inl RangeError"
| "addState (Suc stack) h s visited =
     (if s \<in> set visited then Inr visited
      else (case read_transitions h s EPSILON of
              None \<Rightarrow> Inr (visited @ [s])
            | Some nexts \<Rightarrow> addState_forEach stack h nexts (visited @ [s])))"
| "addState_forEach stack h [] visited = Inr visited"
| "addState_forEach stack h (next # nexts) visited =
     (case addState stack h next visited of
        Inl e \<Rightarrow> Inl e
      | Inr visited' \<Rightarrow> addState_forEach stack h nexts visited')"

text \<open>
  The body of \<open>currentStates.forEach\<close> for one input character, over the current set
  in insertion order, filling \<open>nextStates\<close>; then the loop over \<open>testString.split('')\<close>.
  An exception ends both loops.
\<close>

fun step_forEach ::
  "nat \<Rightarrow> State list \<Rightarrow> jsstring \<Rightarrow> nat list \<Rightarrow> nat list \<Rightarrow> js_error + nat list" where
  "step_forEach stack h char [] nextStates = Inr nextStates"
| "step_forEach stack h char (s # rest) nextStates =
     (case read_transitions h s char of
        None \<Rightarrow> step_forEach stack h char rest nextStates
      | Some nexts \<Rightarrow>
          (case addState_forEach stack h nexts nextStates of
             Inl e \<Rightarrow> Inl e
           | Inr nextStates' \<Rightarrow> step_forEach stack h char rest nextStates'))"

fun simulate_loop ::
  "nat \<Rightarrow> State list \<Rightarrow> jsstring list \<Rightarrow> nat list \<Rightarrow> js_error + nat list" where
  "simulate_loop stack h [] currentStates = Inr currentStates"
| "simulate_loop stack h (char # rest) currentStates =
     (case step_forEach stack h char currentStates [] of
        Inl e \<Rightarrow> Inl e
      | Inr nextStates \<Rightarrow> simulate_loop stack h rest nextStates)"

text \<open>
  The effect, for a compiled automaton: the pair it hands to \<open>setActiveStates\<close> and
  \<open>setIsMatch\<close>, or the exception that leaves it. The empty test string is falsy and
  takes the early return.
\<close>

definition simulate ::
  "nat \<Rightarrow> State list \<Rightarrow> NFA \<Rightarrow> jsstring \<Rightarrow> js_error + (nat list \<times> bool)" where
  "simulate stack h nfaObject testString =
     (if testString = [] then Inr ([state_id (h ! nfa_start nfaObject)], False)
      else
        (case addState stack h (nfa_start nfaObject) [] of
           Inl e \<Rightarrow> Inl e
         | Inr currentStates \<Rightarrow>
             (case simulate_loop stack h (split_units testString) currentStates of
                Inl e \<Rightarrow> Inl e
              | Inr currentStates \<Rightarrow>
                  (let activeIds = map (\<lambda>s. state_id (h ! s)) currentStates;
                       matchFound = list_ex (\<lambda>s. isAccept (h ! s)) currentStates
                   in Inr (activeIds, matchFound)))))"

text \<open>
  The component: \<open>useMemo\<close> compiles \<open>regexInput\<close>, the effect simulates. With no
  automaton the effect returns at once and sets nothing: \<open>None\<close>.
\<close>

definition RegexAutomata ::
  "nat \<Rightarrow> jsstring \<Rightarrow> jsstring \<Rightarrow> (js_error + (nat list \<times> bool)) option" where
  "RegexAutomata stack regexInput testString =
     (case compileRegexToNFA regexInput of
        None \<Rightarrow> None
      | Some (h, nfaObject) \<Rightarrow> Some (simulate stack h nfaObject testString))"

section \<open>The specification's wording\<close>

text \<open>
  The normalizer as the specification words it: a concatenation sign goes between
  positions \<open>i\<close> and \<open>i + 1\<close> when the character at \<open>i\<close> is alphanumeric, \<open>*\<close> or
  \<open>)\<close> and the character at \<open>i + 1\<close> is alphanumeric or \<open>(\<close>; every character of
  the input is kept, in order, and nothing else is added.
\<close>

definition concat_here :: "jsstring \<Rightarrow> nat \<Rightarrow> bool" where
  "concat_here pattern i \<longleftrightarrow>
     i + 1 < length pattern \<and>
     (alnum_unit (pattern ! i) \<or> pattern ! i = 0x2A \<or> pattern ! i = 0x29) \<and>
     (alnum_unit (pattern ! (i + 1)) \<or> pattern ! (i + 1) = 0x28)"

definition insertConcat_spec :: "jsstring \<Rightarrow> jsstring" where
  "insertConcat_spec pattern =
     concat (map (\<lambda>i. pattern ! i # (if concat_here pattern i then DOT else []))
                 [0..<length pattern])"

text \<open>
  The translator as the specification words it. Only the order of the three operators
  matters: \<open>*\<close> above \<open>.\<close> above \<open>|\<close>. An incoming operator pops the stacked operators
  from the top for as long as they rank at least as high as itself; a parenthesis, or a
  character that is none of the three operators, has no rank and ends the run. A closing
  parenthesis pops down to the nearest \<open>(\<close> and drops it. The output is the emitted
  tokens followed by what is left on the stack, top first.
\<close>

definition rank :: "jsstring \<Rightarrow> nat option" where
  "rank c =
     (if c = BAR then Some 0 else if c = DOT then Some 1 else if c = STAR then Some 2
      else None)"

definition outranks :: "jsstring \<Rightarrow> jsstring \<Rightarrow> bool" where
  "outranks incoming stacked \<longleftrightarrow>
     (case rank stacked of None \<Rightarrow> False
      | Some r \<Rightarrow> (case rank incoming of None \<Rightarrow> False | Some r' \<Rightarrow> r' \<le> r))"

definition shunting_yard_step ::
  "jsstring \<Rightarrow> jsstring list \<times> jsstring list \<Rightarrow> jsstring list \<times> jsstring list" where
  "shunting_yard_step tok acc =
     (case acc of (emitted, ops) \<Rightarrow>
        if regex_test alnum_unit tok then (emitted @ [tok], ops)
        else if tok = LPAREN then (emitted, tok # ops)
        else if tok = RPAREN then
          (emitted @ takeWhile (\<lambda>x. x \<noteq> LPAREN) ops,
           drop 1 (dropWhile (\<lambda>x. x \<noteq> LPAREN) ops))
        else
          (emitted @ takeWhile (outranks tok) ops, tok # dropWhile (outranks tok) ops))"

definition shunting_yard :: "jsstring list \<Rightarrow> jsstring list" where
  "shunting_yard toks =
     (case foldl (\<lambda>acc tok. shunting_yard_step tok acc) ([], []) toks of
        (emitted, ops) \<Rightarrow> emitted @ ops)"

text \<open>
  The simulator's rule as the specification words it for the empty test string: the
  active set is the closure of the start state, and the verdict says whether that
  closure holds an accepting state. The closure of a state is what \<open>addState\<close> collects
  from it into an empty set when the call stack has room for one activation per state of
  the arena and one more, which is room enough.
\<close>

definition closure :: "State list \<Rightarrow> nat \<Rightarrow> nat list" where
  "closure h s = (case addState (Suc (length h)) h s [] of Inl e \<Rightarrow> [] | Inr visited \<Rightarrow> visited)"

definition start_closure :: "jsstring \<Rightarrow> (nat list \<times> bool) option" where
  "start_closure pattern =
     (case compileRegexToNFA pattern of
        None \<Rightarrow> None
      | Some (h, nfa) \<Rightarrow>
          (let c = closure h (nfa_start nfa)
           in Some (map (\<lambda>s. state_id (h ! s)) c, list_ex (\<lambda>s. isAccept (h ! s)) c)))"

text \<open>The number of arena states outside a set: what the closure can still expand.\<close>

definition unvisited :: "State list \<Rightarrow> nat list \<Rightarrow> nat" where
  "unvisited h visited = card ({..<length h} - set visited)"

section \<open>Notions for stating the properties\<close>

text \<open>
  The successors of a state under a label, the transition relation of an arena, and
  reachability along transitions of any label.
\<close>

definition successors :: "State list \<Rightarrow> nat \<Rightarrow> jsstring \<Rightarrow> nat list" where
  "successors h p char = (case read_transitions h p char of None \<Rightarrow> [] | Some nexts \<Rightarrow> nexts)"

definition has_transition :: "State list \<Rightarrow> nat \<Rightarrow> jsstring \<Rightarrow> nat \<Rightarrow> bool" where
  "has_transition h p char q =
     (case read_transitions h p char of None \<Rightarrow> False | Some nexts \<Rightarrow> q \<in> set nexts)"

inductive reachable :: "State list \<Rightarrow> nat \<Rightarrow> nat \<Rightarrow> bool" for h :: "State list" where
  reachable_refl: "reachable h p p"
| reachable_step: "reachable h p q \<Longrightarrow> has_transition h q char r \<Longrightarrow> reachable h p r"

text \<open>
  The store after \<open>new State()\<close>, and the store each branch of the compiler's loop
  leaves behind, written as the branch's statements in order (innermost first).
\<close>

definition allocated :: "store \<Rightarrow> store" where
  "allocated \<sigma> = snd (new_State \<sigma>)"

definition dot_result :: "store \<Rightarrow> NFA \<Rightarrow> NFA \<Rightarrow> store" where
  "dot_result \<sigma> n1 n2 =
     addTransition (nfa_end n1) EPSILON (nfa_start n2) (set_isAccept (nfa_end n1) False \<sigma>)"

definition bar_result :: "store \<Rightarrow> NFA \<Rightarrow> NFA \<Rightarrow> store" where
  "bar_result \<sigma> n1 n2 =
     (let s = length (states \<sigma>); e = s + 1 in
      addTransition (nfa_end n2) EPSILON e
        (addTransition (nfa_end n1) EPSILON e
          (set_isAccept (nfa_end n2) False
            (set_isAccept (nfa_end n1) False
              (addTransition s EPSILON (nfa_start n2)
                (addTransition s EPSILON (nfa_start n1)
                   (allocated (allocated \<sigma>))))))))"

definition star_result :: "store \<Rightarrow> NFA \<Rightarrow> store" where
  "star_result \<sigma> n1 =
     (let s = length (states \<sigma>); e = s + 1 in
      addTransition (nfa_end n1) EPSILON e
        (addTransition (nfa_end n1) EPSILON (nfa_start n1)
          (set_isAccept (nfa_end n1) False
            (addTransition s EPSILON e
              (addTransition s EPSILON (nfa_start n1)
                 (allocated (allocated \<sigma>)))))))"

definition literal_result :: "store \<Rightarrow> jsstring \<Rightarrow> store" where
  "literal_result \<sigma> char =
     addTransition (length (states \<sigma>)) char (length (states \<sigma>) + 1) (allocated (allocated \<sigma>))"

definition fresh_fragment :: "store \<Rightarrow> NFA" where
  "fresh_fragment \<sigma> = \<lparr>nfa_start = length (states \<sigma>), nfa_end = length (states \<sigma>) + 1\<rparr>"

text \<open>
  The invariant of a compilation. In the store, identifiers are arena positions, no
  state is accepting, and every transition leads to a state of the arena; every fragment
  on the stack has its two states in the arena, the end reachable from the start.
\<close>

definition wf_store :: "store \<Rightarrow> bool" where
  "wf_store \<sigma> \<longleftrightarrow>
     idCounter \<sigma> = length (states \<sigma>) \<and>
     (\<forall>a < length (states \<sigma>). state_id (states \<sigma> ! a) = a \<and> \<not> isAccept (states \<sigma> ! a)) \<and>
     (\<forall>p k q. has_transition (states \<sigma>) p k q \<longrightarrow> q < length (states \<sigma>))"

definition wf_fragment :: "State list \<Rightarrow> NFA \<Rightarrow> bool" where
  "wf_fragment h f \<longleftrightarrow>
     nfa_start f < length h \<and> nfa_end f < length h \<and> reachable h (nfa_start f) (nfa_end f)"

definition compile_inv :: "store \<times> NFA list \<Rightarrow> bool" where
  "compile_inv acc \<longleftrightarrow>
     wf_store (fst acc) \<and> (\<forall>f \<in> set (snd acc). wf_fragment (states (fst acc)) f)"

definition wf_arena :: "State list \<Rightarrow> bool" where
  "wf_arena h \<longleftrightarrow>
     (\<forall>a < length h. state_id (h ! a) = a) \<and>
     (\<forall>p k q. has_transition h p k q \<longrightarrow> q < length h)"

text \<open>
  The number of fragments a token pops, and the number of fragments on the stack when
  the compiler's loop has consumed the whole postfix string (\<open>None\<close> if it threw).
\<close>

definition operands :: "jsstring \<Rightarrow> nat" where
  "operands char = (if char = DOT \<or> char = BAR then 2 else if char = STAR then 1 else 0)"

definition fragments_left :: "jsstring \<Rightarrow> nat option" where
  "fragments_left pattern =
     (case compile_loop (codePoints (toPostfix pattern)) (init_store, []) of
        None \<Rightarrow> None
      | Some (\<sigma>, stack) \<Rightarrow> Some (length stack))"


text \<open>\<open>isMatch\<close> as the component shows it for a pattern and a test string.\<close>

definition isMatch :: "nat \<Rightarrow> jsstring \<Rightarrow> jsstring \<Rightarrow> (js_error + bool) option" where
  "isMatch stack regexInput testString =
     map_option (map_sum id snd) (RegexAutomata stack regexInput testString)"

text \<open>
  The arenas of four compilations, for the examples: \<open>(a|b)*abb\<close>, \<open>a*\<close>, \<open>(a\<close> and
  the one-character pattern \<open>\<epsilon>\<close>.
\<close>

definition abb_states :: "State list" where
  "abb_states =
    [\<lparr>state_id = 0, transitions = [(js ''a'', [1])], isAccept = False\<rparr>,
     \<lparr>state_id = 1, transitions = [(EPSILON, [5])], isAccept = False\<rparr>,
     \<lparr>state_id = 2, transitions = [(js ''b'', [3])], isAccept = False\<rparr>,
     \<lparr>state_id = 3, transitions = [(EPSILON, [5])], isAccept = False\<rparr>,
     \<lparr>state_id = 4, transitions = [(EPSILON, [0, 2])], isAccept = False\<rparr>,
     \<lparr>state_id = 5, transitions = [(EPSILON, [4, 7])], isAccept = False\<rparr>,
     \<lparr>state_id = 6, transitions = [(EPSILON, [4, 7])], isAccept = False\<rparr>,
     \<lparr>state_id = 7, transitions = [(EPSILON, [8])], isAccept = False\<rparr>,
     \<lparr>state_id = 8, transitions = [(js ''a'', [9])], isAccept = False\<rparr>,
     \<lparr>state_id = 9, transitions = [(EPSILON, [10])], isAccept = False\<rparr>,
     \<lparr>state_id = 10, transitions = [(js ''b'', [11])], isAccept = False\<rparr>,
     \<lparr>state_id = 11, transitions = [(EPSILON, [12])], isAccept = False\<rparr>,
     \<lparr>state_id = 12, transitions = [(js ''b'', [13])], isAccept = False\<rparr>,
     \<lparr>state_id = 13, transitions = [], isAccept = True\<rparr>]"

definition abb_nfa :: NFA where
  "abb_nfa = \<lparr>nfa_start = 6, nfa_end = 13\<rparr>"

definition a_star_states :: "State list" where
  "a_star_states =
    [\<lparr>state_id = 0, transitions = [(js ''a'', [1])], isAccept = False\<rparr>,
     \<lparr>state_id = 1, transitions = [(EPSILON, [0, 3])], isAccept = False\<rparr>,
     \<lparr>state_id = 2, transitions = [(EPSILON, [0, 3])], isAccept = False\<rparr>,
     \<lparr>state_id = 3, transitions = [], isAccept = True\<rparr>]"

definition a_star_nfa :: NFA where
  "a_star_nfa = \<lparr>nfa_start = 2, nfa_end = 3\<rparr>"

definition paren_a_states :: "State list" where
  "paren_a_states =
    [\<lparr>state_id = 0, transitions = [(js ''a'', [1])], isAccept = False\<rparr>,
     \<lparr>state_id = 1, transitions = [], isAccept = False\<rparr>,
     \<lparr>state_id = 2, transitions = [(LPAREN, [3])], isAccept = False\<rparr>,
     \<lparr>state_id = 3, transitions = [], isAccept = True\<rparr>]"

definition paren_a_nfa :: NFA where
  "paren_a_nfa = \<lparr>nfa_start = 2, nfa_end = 3\<rparr>"



text \<open>The store after the literal \<open>a\<close> alone, on which a \<open>*\<close> can act.\<close>

definition a_store :: store where
  "a_store =
    \<lparr>states = [\<lparr>state_id = 0, transitions = [(js ''a'', [1])], isAccept = False\<rparr>,
               \<lparr>state_id = 1, transitions = [], isAccept = False\<rparr>],
     idCounter = 2\<rparr>"

definition a_nfa :: NFA where
  "a_nfa = \<lparr>nfa_start = 0, nfa_end = 1\<rparr>"

text \<open>
  The patterns \<open>a\<close>, \<open>a*\<close>, \<open>a**\<close>, ...: the letter followed by \<open>n\<close> stars. The store
  the compiler's loop leaves for such a pattern is a tower: the literal, then one star
  step per star, each on the fragment the step before pushed.
\<close>

definition a_stars :: "nat \<Rightarrow> jsstring" where
  "a_stars n = 0x61 # replicate n 0x2A"

fun star_tower :: "nat \<Rightarrow> store" where
  "star_tower 0 = literal_result init_store [0x61]"
| "star_tower (Suc n) = star_result (star_tower n) \<lparr>nfa_start = 2 * n, nfa_end = 2 * n + 1\<rparr>"

definition tower_states :: "nat \<Rightarrow> State list" where
  "tower_states n = states (set_isAccept (2 * n + 1) True (star_tower n))"

definition tower_nfa :: "nat \<Rightarrow> NFA" where
  "tower_nfa n = \<lparr>nfa_start = 2 * n, nfa_end = 2 * n + 1\<rparr>"




section \<open>The normalizer\<close>

lemma insertConcat_body_eq:
  "i < length pattern \<Longrightarrow>
   insertConcat_body pattern i res =
     res @ pattern ! i # (if concat_here pattern i then DOT else [])"
  by (simp add: insertConcat_body_def concat_here_def regex_test_def c1_unit_def c2_unit_def
      Let_def)

lemma insertConcat_loop_eq:
  "insertConcat_loop pattern i res =
     res @ concat (map (\<lambda>i. pattern ! i # (if concat_here pattern i then DOT else []))
                       [i..<length pattern])"
proof (induction pattern i res rule: insertConcat_loop.induct)
  case (1 pattern i res)
  show ?case
  proof (cases "i < length pattern")
    case True
    then have "[i..<length pattern] = i # [i + 1..<length pattern]"
      by (simp add: upt_conv_Cons)
    with True 1 show ?thesis
      by (subst insertConcat_loop.simps) (simp add: insertConcat_body_eq)
  next
    case False
    then show ?thesis
      by (subst insertConcat_loop.simps) simp
  qed
qed

text \<open>
  C7. \<open>insertConcat\<close> is defined on every string (its loop terminates: the index
  rises to the length) and returns the input with a \<open>.\<close> after position \<open>i\<close> exactly
  when position \<open>i\<close> holds an ASCII letter or digit, \<open>*\<close> or \<open>)\<close> and position
  \<open>i + 1\<close> holds an ASCII letter or digit or \<open>(\<close>; no insertion after the last
  character or before the first, and no other change.
\<close>

theorem insertConcat_inserts_exactly: "insertConcat pattern = insertConcat_spec pattern"
  by (simp add: insertConcat_def insertConcat_spec_def insertConcat_loop_eq)

section \<open>The translator\<close>

lemma tokens_distinct [simp]:
  "STAR \<noteq> DOT" "STAR \<noteq> BAR" "DOT \<noteq> BAR" "DOT \<noteq> STAR" "BAR \<noteq> STAR" "BAR \<noteq> DOT"
  "EPSILON \<noteq> DOT" "EPSILON \<noteq> BAR" "EPSILON \<noteq> STAR"
  by (simp_all add: STAR_def DOT_def BAR_def EPSILON_def)

lemma js_ge_outranks: "js_ge (precedence tp) (precedence char) = outranks char tp"
  by (simp add: js_ge_def precedence_def outranks_def rank_def)

lemma pop_until_lparen_eq:
  "pop_until_lparen out stack =
     (out @ concat (takeWhile (\<lambda>x. x \<noteq> LPAREN) stack), dropWhile (\<lambda>x. x \<noteq> LPAREN) stack)"
  by (induction stack arbitrary: out) simp_all

lemma pop_while_ge_eq:
  "pop_while_ge char out stack =
     (out @ concat (takeWhile (outranks char) stack), dropWhile (outranks char) stack)"
  by (induction stack arbitrary: out) (simp_all add: js_ge_outranks)

lemma pop_all_eq: "pop_all out stack = out @ concat stack"
  by (induction stack arbitrary: out) simp_all

lemma pop_discard_eq: "pop_discard stack = drop 1 stack"
  by (cases stack) (simp_all add: pop_discard_def)

lemma toPostfix_step_eq:
  "toPostfix_step char (concat emitted, ops) =
     (case shunting_yard_step char (emitted, ops) of
        (emitted', ops') \<Rightarrow> (concat emitted', ops'))"
  by (simp add: toPostfix_step_def shunting_yard_step_def pop_until_lparen_eq pop_while_ge_eq
      pop_discard_eq)

lemma toPostfix_loop_eq:
  "toPostfix_loop toks (concat emitted, ops) =
     (case foldl (\<lambda>acc tok. shunting_yard_step tok acc) (emitted, ops) toks of
        (emitted', ops') \<Rightarrow> (concat emitted', ops'))"
proof (induction toks arbitrary: emitted ops)
  case Nil
  then show ?case by simp
next
  case (Cons tok toks)
  obtain e' o' where "shunting_yard_step tok (emitted, ops) = (e', o')"
    by (cases "shunting_yard_step tok (emitted, ops)")
  then show ?case
    using Cons [of e' o'] by (simp add: toPostfix_step_eq)
qed

text \<open>
  C6. On every input, \<open>toPostfix\<close> is the shunting-yard translation of the code points
  of the normalized pattern: alphanumerics are emitted at once, \<open>(\<close> is pushed, \<open>)\<close>
  pops and emits down to the nearest \<open>(\<close> and drops it, any other character first pops
  and emits the run of stacked operators ranking at least as high as itself (\<open>*\<close> over
  \<open>.\<close> over \<open>|\<close>) and is then pushed, and at the end the stack is emitted top first.
\<close>

theorem toPostfix_is_shunting_yard:
  "toPostfix pattern = concat (shunting_yard (codePoints (insertConcat pattern)))"
  using toPostfix_loop_eq [of "codePoints (insertConcat pattern)" "[]" "[]"]
  by (simp add: toPostfix_def shunting_yard_def pop_all_eq split: prod.splits)

section \<open>The arena during a compilation\<close>

lemma new_State_eq: "new_State \<sigma> = (length (states \<sigma>), allocated \<sigma>)"
  by (simp add: new_State_def allocated_def)

lemma length_allocated [simp]: "length (states (allocated \<sigma>)) = length (states \<sigma>) + 1"
  by (simp add: new_State_def allocated_def)

lemma compile_step_dot:
  "compile_step DOT (\<sigma>, stack) =
     (case stack of
        n2 # n1 # rest \<Rightarrow>
          Some (dot_result \<sigma> n1 n2, \<lparr>nfa_start = nfa_start n1, nfa_end = nfa_end n2\<rparr> # rest)
      | _ \<Rightarrow> None)"
  by (simp add: compile_step_def dot_result_def Let_def split: list.splits)

lemma compile_step_bar:
  "compile_step BAR (\<sigma>, stack) =
     (case stack of
        n2 # n1 # rest \<Rightarrow> Some (bar_result \<sigma> n1 n2, fresh_fragment \<sigma> # rest)
      | _ \<Rightarrow> None)"
  by (simp add: compile_step_def bar_result_def fresh_fragment_def new_State_eq Let_def
      split: list.splits)

lemma compile_step_star:
  "compile_step STAR (\<sigma>, stack) =
     (case stack of
        n1 # rest \<Rightarrow> Some (star_result \<sigma> n1, fresh_fragment \<sigma> # rest)
      | [] \<Rightarrow> None)"
  by (simp add: compile_step_def star_result_def fresh_fragment_def new_State_eq Let_def
      split: list.splits)

lemma compile_step_literal:
  "char \<noteq> DOT \<Longrightarrow> char \<noteq> BAR \<Longrightarrow> char \<noteq> STAR \<Longrightarrow>
   compile_step char (\<sigma>, stack) = Some (literal_result \<sigma> char, fresh_fragment \<sigma> # stack)"
  by (simp add: compile_step_def literal_result_def fresh_fragment_def new_State_eq Let_def)

lemma map_of_push_transition:
  "map_of (push_transition char n kvs) k =
     (if k = char then Some ((case map_of kvs char of None \<Rightarrow> [] | Some ns \<Rightarrow> ns) @ [n])
      else map_of kvs k)"
  by (induction kvs) auto

lemma length_addTransition [simp]:
  "length (states (addTransition this char n \<sigma>)) = length (states \<sigma>)"
  by (simp add: addTransition_def modify_def)

lemma length_set_isAccept [simp]:
  "length (states (set_isAccept this b \<sigma>)) = length (states \<sigma>)"
  by (simp add: set_isAccept_def modify_def)

lemma idCounter_addTransition [simp]:
  "idCounter (addTransition this char n \<sigma>) = idCounter \<sigma>"
  by (simp add: addTransition_def modify_def)

lemma idCounter_set_isAccept [simp]:
  "idCounter (set_isAccept this b \<sigma>) = idCounter \<sigma>"
  by (simp add: set_isAccept_def modify_def)

lemma idCounter_allocated [simp]: "idCounter (allocated \<sigma>) = idCounter \<sigma> + 1"
  by (simp add: allocated_def new_State_def)

lemma read_outside: "length h \<le> p \<Longrightarrow> read_transitions h p k = None"
  by (simp add: read_transitions_def)

lemma read_addTransition:
  "this < length (states \<sigma>) \<Longrightarrow>
   read_transitions (states (addTransition this char n \<sigma>)) p k =
     (if p = this \<and> k = char then Some (successors (states \<sigma>) this char @ [n])
      else read_transitions (states \<sigma>) p k)"
  by (auto simp: addTransition_def modify_def read_transitions_def successors_def
      map_of_push_transition nth_list_update)

lemma read_set_isAccept [simp]:
  "read_transitions (states (set_isAccept this b \<sigma>)) p k = read_transitions (states \<sigma>) p k"
  by (auto simp: set_isAccept_def modify_def read_transitions_def nth_list_update)

lemma read_allocated [simp]:
  "read_transitions (states (allocated \<sigma>)) p k = read_transitions (states \<sigma>) p k"
  by (auto simp: allocated_def new_State_def read_transitions_def nth_append)

lemma successors_fresh [simp]: "successors h (length h) k = []"
  by (simp add: successors_def read_outside)

lemma successors_allocated [simp]:
  "successors (states (allocated \<sigma>)) p k = successors (states \<sigma>) p k"
  by (simp add: successors_def)

lemma successors_set_isAccept [simp]:
  "successors (states (set_isAccept this b \<sigma>)) p k = successors (states \<sigma>) p k"
  by (simp add: successors_def)

lemma successors_addTransition:
  "this < length (states \<sigma>) \<Longrightarrow>
   successors (states (addTransition this char n \<sigma>)) p k =
     (if p = this \<and> k = char then successors (states \<sigma>) this char @ [n]
      else successors (states \<sigma>) p k)"
  by (simp add: successors_def read_addTransition)

lemma has_transition_successors: "has_transition h p k q \<longleftrightarrow> q \<in> set (successors h p k)"
  by (simp add: has_transition_def successors_def split: option.splits)

lemma has_addTransition:
  "this < length (states \<sigma>) \<Longrightarrow>
   has_transition (states (addTransition this char n \<sigma>)) p k q \<longleftrightarrow>
     has_transition (states \<sigma>) p k q \<or> (p = this \<and> k = char \<and> q = n)"
  by (auto simp: has_transition_successors successors_addTransition)

lemma has_set_isAccept [simp]:
  "has_transition (states (set_isAccept this b \<sigma>)) p k q = has_transition (states \<sigma>) p k q"
  by (simp add: has_transition_def)

lemma has_allocated [simp]:
  "has_transition (states (allocated \<sigma>)) p k q = has_transition (states \<sigma>) p k q"
  by (simp add: has_transition_def)

lemma isAccept_addTransition [simp]:
  "isAccept (states (addTransition this char n \<sigma>) ! a) = isAccept (states \<sigma> ! a)"
  by (cases "a = this") (auto simp: addTransition_def modify_def)

lemma isAccept_set_isAccept:
  "a < length (states \<sigma>) \<Longrightarrow>
   isAccept (states (set_isAccept this b \<sigma>) ! a) = (if a = this then b else isAccept (states \<sigma> ! a))"
  by (auto simp: set_isAccept_def modify_def)

lemma isAccept_allocated:
  "a < length (states \<sigma>) + 1 \<Longrightarrow>
   isAccept (states (allocated \<sigma>) ! a) = (a < length (states \<sigma>) \<and> isAccept (states \<sigma> ! a))"
  by (auto simp: allocated_def new_State_def nth_append)

lemma state_id_addTransition [simp]:
  "state_id (states (addTransition this char n \<sigma>) ! a) = state_id (states \<sigma> ! a)"
  by (cases "a = this") (auto simp: addTransition_def modify_def)

lemma state_id_set_isAccept [simp]:
  "state_id (states (set_isAccept this b \<sigma>) ! a) = state_id (states \<sigma> ! a)"
  by (cases "a = this") (auto simp: set_isAccept_def modify_def)

lemma state_id_allocated:
  "a < length (states \<sigma>) + 1 \<Longrightarrow>
   state_id (states (allocated \<sigma>) ! a) =
     (if a < length (states \<sigma>) then state_id (states \<sigma> ! a) else idCounter \<sigma>)"
  by (auto simp: allocated_def new_State_def nth_append)

text \<open>The invariant of the arena during a compilation.\<close>

lemma wf_allocated: "wf_store \<sigma> \<Longrightarrow> wf_store (allocated \<sigma>)"
  unfolding wf_store_def
  by (auto simp: isAccept_allocated state_id_allocated less_Suc_eq)

lemma wf_addTransition:
  "wf_store \<sigma> \<Longrightarrow> n < length (states \<sigma>) \<Longrightarrow> wf_store (addTransition this char n \<sigma>)"
proof (cases "this < length (states \<sigma>)")
  case True
  assume "wf_store \<sigma>" "n < length (states \<sigma>)"
  with True show ?thesis
    unfolding wf_store_def by (auto simp: has_addTransition)
next
  case False
  assume "wf_store \<sigma>"
  with False show ?thesis by (simp add: addTransition_def modify_def)
qed

lemma wf_set_isAccept: "wf_store \<sigma> \<Longrightarrow> wf_store (set_isAccept this False \<sigma>)"
  unfolding wf_store_def by (auto simp: isAccept_set_isAccept)

lemma wf_init: "wf_store init_store"
  by (simp add: wf_store_def init_store_def has_transition_def read_transitions_def)

lemma reachable_mono:
  assumes "reachable h a b" and "\<And>p k q. has_transition h p k q \<Longrightarrow> has_transition h' p k q"
  shows "reachable h' a b"
  using assms(1)
proof (induction rule: reachable.induct)
  case (reachable_refl p)
  show ?case by (rule reachable.reachable_refl)
next
  case (reachable_step p q char r)
  then show ?case using assms(2) reachable.reachable_step by blast
qed

lemma reachable_trans: "reachable h b c \<Longrightarrow> reachable h a b \<Longrightarrow> reachable h a c"
  by (induction rule: reachable.induct) (auto intro: reachable.intros)

lemma reachable_edge: "has_transition h p k q \<Longrightarrow> reachable h p q"
  using reachable_refl reachable_step by blast

lemma wf_fragment_mono:
  assumes "wf_fragment h f" and "length h \<le> length h'"
    and "\<And>p k q. has_transition h p k q \<Longrightarrow> has_transition h' p k q"
  shows "wf_fragment h' f"
  using assms reachable_mono [of h "nfa_start f" "nfa_end f" h']
  unfolding wf_fragment_def by auto

text \<open>The four results: size, transitions, well-formedness.\<close>

lemma length_dot_result [simp]: "length (states (dot_result \<sigma> n1 n2)) = length (states \<sigma>)"
  by (simp add: dot_result_def)

lemma length_bar_result [simp]: "length (states (bar_result \<sigma> n1 n2)) = length (states \<sigma>) + 2"
  by (simp add: bar_result_def Let_def)

lemma length_star_result [simp]: "length (states (star_result \<sigma> n1)) = length (states \<sigma>) + 2"
  by (simp add: star_result_def Let_def)

lemma length_literal_result [simp]: "length (states (literal_result \<sigma> char)) = length (states \<sigma>) + 2"
  by (simp add: literal_result_def)

lemma has_dot_result:
  "nfa_end n1 < length (states \<sigma>) \<Longrightarrow>
   has_transition (states (dot_result \<sigma> n1 n2)) p k q \<longleftrightarrow>
     has_transition (states \<sigma>) p k q \<or> (p = nfa_end n1 \<and> k = EPSILON \<and> q = nfa_start n2)"
  by (simp add: dot_result_def has_addTransition)

lemma has_bar_result:
  "nfa_end n1 < length (states \<sigma>) \<Longrightarrow> nfa_end n2 < length (states \<sigma>) \<Longrightarrow>
   has_transition (states (bar_result \<sigma> n1 n2)) p k q \<longleftrightarrow>
     has_transition (states \<sigma>) p k q \<or>
     (k = EPSILON \<and>
       (p = length (states \<sigma>) \<and> q = nfa_start n1 \<or>
        p = length (states \<sigma>) \<and> q = nfa_start n2 \<or>
        p = nfa_end n1 \<and> q = length (states \<sigma>) + 1 \<or>
        p = nfa_end n2 \<and> q = length (states \<sigma>) + 1))"
  by (simp add: bar_result_def Let_def has_addTransition) blast

lemma has_star_result:
  "nfa_end n1 < length (states \<sigma>) \<Longrightarrow>
   has_transition (states (star_result \<sigma> n1)) p k q \<longleftrightarrow>
     has_transition (states \<sigma>) p k q \<or>
     (k = EPSILON \<and>
       (p = length (states \<sigma>) \<and> q = nfa_start n1 \<or>
        p = length (states \<sigma>) \<and> q = length (states \<sigma>) + 1 \<or>
        p = nfa_end n1 \<and> q = nfa_start n1 \<or>
        p = nfa_end n1 \<and> q = length (states \<sigma>) + 1))"
  by (simp add: star_result_def Let_def has_addTransition) blast

lemma has_literal_result:
  "has_transition (states (literal_result \<sigma> char)) p k q \<longleftrightarrow>
     has_transition (states \<sigma>) p k q \<or>
     (p = length (states \<sigma>) \<and> k = char \<and> q = length (states \<sigma>) + 1)"
  by (simp add: literal_result_def has_addTransition)

lemma wf_dot_result:
  "wf_store \<sigma> \<Longrightarrow> nfa_start n2 < length (states \<sigma>) \<Longrightarrow> wf_store (dot_result \<sigma> n1 n2)"
  by (simp add: dot_result_def wf_addTransition wf_set_isAccept)

lemma wf_bar_result:
  "wf_store \<sigma> \<Longrightarrow> nfa_start n1 < length (states \<sigma>) \<Longrightarrow> nfa_start n2 < length (states \<sigma>) \<Longrightarrow>
   wf_store (bar_result \<sigma> n1 n2)"
  by (simp add: bar_result_def Let_def wf_addTransition wf_set_isAccept wf_allocated)

lemma wf_star_result:
  "wf_store \<sigma> \<Longrightarrow> nfa_start n1 < length (states \<sigma>) \<Longrightarrow> wf_store (star_result \<sigma> n1)"
  by (simp add: star_result_def Let_def wf_addTransition wf_set_isAccept wf_allocated)

lemma wf_literal_result: "wf_store \<sigma> \<Longrightarrow> wf_store (literal_result \<sigma> char)"
  by (simp add: literal_result_def wf_addTransition wf_allocated)

lemma wf_fresh_fragment:
  assumes "has_transition h' (length (states \<sigma>)) k (length (states \<sigma>) + 1)
           \<or> (\<exists>a b j. has_transition h' (length (states \<sigma>)) k a \<and> reachable h' a b
                 \<and> has_transition h' b j (length (states \<sigma>) + 1))"
    and "length h' = length (states \<sigma>) + 2"
  shows "wf_fragment h' (fresh_fragment \<sigma>)"
proof -
  have "reachable h' (length (states \<sigma>)) (length (states \<sigma>) + 1)"
    using assms(1) reachable_edge reachable_trans by blast
  then show ?thesis
    using assms(2) by (simp add: wf_fragment_def fresh_fragment_def)
qed

lemma inv_dot:
  assumes "compile_inv (\<sigma>, n2 # n1 # rest)"
  shows "compile_inv (dot_result \<sigma> n1 n2, \<lparr>nfa_start = nfa_start n1, nfa_end = nfa_end n2\<rparr> # rest)"
proof -
  let ?h' = "states (dot_result \<sigma> n1 n2)"
  from assms have wf: "wf_store \<sigma>" and f1: "wf_fragment (states \<sigma>) n1"
    and f2: "wf_fragment (states \<sigma>) n2" and fr: "\<forall>f \<in> set rest. wf_fragment (states \<sigma>) f"
    by (simp_all add: compile_inv_def)
  have e1: "nfa_end n1 < length (states \<sigma>)" using f1 by (simp add: wf_fragment_def)
  have lift: "\<And>f. wf_fragment (states \<sigma>) f \<Longrightarrow> wf_fragment ?h' f"
    by (erule wf_fragment_mono) (simp_all add: has_dot_result [OF e1])
  have "wf_fragment ?h' n1" "wf_fragment ?h' n2"
    using lift f1 f2 by simp_all
  moreover have "has_transition ?h' (nfa_end n1) EPSILON (nfa_start n2)"
    by (simp add: has_dot_result [OF e1])
  ultimately have "wf_fragment ?h' \<lparr>nfa_start = nfa_start n1, nfa_end = nfa_end n2\<rparr>"
    unfolding wf_fragment_def using reachable_edge reachable_trans by (simp, blast)
  moreover have "\<forall>f \<in> set rest. wf_fragment ?h' f"
    using fr lift by simp
  moreover have "wf_store (dot_result \<sigma> n1 n2)"
    using wf f2 by (simp add: wf_dot_result wf_fragment_def)
  ultimately show ?thesis by (simp add: compile_inv_def)
qed

lemma inv_bar:
  assumes "compile_inv (\<sigma>, n2 # n1 # rest)"
  shows "compile_inv (bar_result \<sigma> n1 n2, fresh_fragment \<sigma> # rest)"
proof -
  let ?h' = "states (bar_result \<sigma> n1 n2)"
  from assms have wf: "wf_store \<sigma>" and f1: "wf_fragment (states \<sigma>) n1"
    and f2: "wf_fragment (states \<sigma>) n2" and fr: "\<forall>f \<in> set rest. wf_fragment (states \<sigma>) f"
    by (simp_all add: compile_inv_def)
  have e1: "nfa_end n1 < length (states \<sigma>)" and e2: "nfa_end n2 < length (states \<sigma>)"
    using f1 f2 by (simp_all add: wf_fragment_def)
  note has = has_bar_result [OF e1 e2]
  have lift: "\<And>f. wf_fragment (states \<sigma>) f \<Longrightarrow> wf_fragment ?h' f"
    by (erule wf_fragment_mono) (simp_all add: has)
  have "wf_fragment ?h' n1"
    using lift f1 by simp
  then have "reachable ?h' (nfa_start n1) (nfa_end n1)" by (simp add: wf_fragment_def)
  moreover have "has_transition ?h' (length (states \<sigma>)) EPSILON (nfa_start n1)"
    "has_transition ?h' (nfa_end n1) EPSILON (length (states \<sigma>) + 1)"
    by (simp_all add: has)
  ultimately have "wf_fragment ?h' (fresh_fragment \<sigma>)"
    by (intro wf_fresh_fragment) auto
  moreover have "\<forall>f \<in> set rest. wf_fragment ?h' f"
    using fr lift by simp
  moreover have "wf_store (bar_result \<sigma> n1 n2)"
    using wf f1 f2 by (simp add: wf_bar_result wf_fragment_def)
  ultimately show ?thesis by (simp add: compile_inv_def)
qed

lemma inv_star:
  assumes "compile_inv (\<sigma>, n1 # rest)"
  shows "compile_inv (star_result \<sigma> n1, fresh_fragment \<sigma> # rest)"
proof -
  let ?h' = "states (star_result \<sigma> n1)"
  from assms have wf: "wf_store \<sigma>" and f1: "wf_fragment (states \<sigma>) n1"
    and fr: "\<forall>f \<in> set rest. wf_fragment (states \<sigma>) f"
    by (simp_all add: compile_inv_def)
  have e1: "nfa_end n1 < length (states \<sigma>)"
    using f1 by (simp_all add: wf_fragment_def)
  note has = has_star_result [OF e1]
  have lift: "\<And>f. wf_fragment (states \<sigma>) f \<Longrightarrow> wf_fragment ?h' f"
    by (erule wf_fragment_mono) (simp_all add: has)
  have "has_transition ?h' (length (states \<sigma>)) EPSILON (length (states \<sigma>) + 1)"
    by (simp add: has)
  then have "wf_fragment ?h' (fresh_fragment \<sigma>)"
    by (intro wf_fresh_fragment) auto
  moreover have "\<forall>f \<in> set rest. wf_fragment ?h' f"
    using fr lift by simp
  moreover have "wf_store (star_result \<sigma> n1)"
    using wf f1 by (simp add: wf_star_result wf_fragment_def)
  ultimately show ?thesis by (simp add: compile_inv_def)
qed

lemma inv_literal:
  assumes "compile_inv (\<sigma>, stack)"
  shows "compile_inv (literal_result \<sigma> char, fresh_fragment \<sigma> # stack)"
proof -
  let ?h' = "states (literal_result \<sigma> char)"
  from assms have wf: "wf_store \<sigma>" and fr: "\<forall>f \<in> set stack. wf_fragment (states \<sigma>) f"
    by (simp_all add: compile_inv_def)
  note has = has_literal_result
  have lift: "\<And>f. wf_fragment (states \<sigma>) f \<Longrightarrow> wf_fragment ?h' f"
    by (erule wf_fragment_mono) (simp_all add: has)
  have "has_transition ?h' (length (states \<sigma>)) char (length (states \<sigma>) + 1)"
    by (simp add: has)
  then have "wf_fragment ?h' (fresh_fragment \<sigma>)"
    by (intro wf_fresh_fragment) auto
  moreover have "\<forall>f \<in> set stack. wf_fragment ?h' f"
    using fr lift by simp
  moreover have "wf_store (literal_result \<sigma> char)"
    using wf by (simp add: wf_literal_result)
  ultimately show ?thesis by (simp add: compile_inv_def)
qed

lemma compile_step_inv:
  assumes "compile_inv acc" and "compile_step char acc = Some acc'"
  shows "compile_inv acc'"
proof -
  obtain \<sigma> stack where acc: "acc = (\<sigma>, stack)" by (cases acc)
  consider "char = DOT" | "char = BAR" | "char = STAR"
    | "char \<noteq> DOT" "char \<noteq> BAR" "char \<noteq> STAR" by blast
  then show ?thesis
  proof cases
    case 1
    then show ?thesis
      using assms acc inv_dot by (auto simp: compile_step_dot split: list.splits)
  next
    case 2
    then show ?thesis
      using assms acc inv_bar by (auto simp: compile_step_bar split: list.splits)
  next
    case 3
    then show ?thesis
      using assms acc inv_star by (auto simp: compile_step_star split: list.splits)
  next
    case 4
    then show ?thesis
      using assms acc inv_literal by (auto simp: compile_step_literal)
  qed
qed

lemma compile_loop_inv:
  "compile_inv acc \<Longrightarrow> compile_loop toks acc = Some acc' \<Longrightarrow> compile_inv acc'"
proof (induction toks arbitrary: acc)
  case Nil
  then show ?case by simp
next
  case (Cons char toks)
  then show ?case
    by (auto split: option.splits dest: compile_step_inv)
qed

lemma compile_inv_init: "compile_inv (init_store, [])"
  by (simp add: compile_inv_def wf_init)

section \<open>The Kleene star\<close>

lemma read_star_result:
  assumes e: "nfa_end n1 < length (states \<sigma>)"
  shows "read_transitions (states (star_result \<sigma> n1)) p k =
    (if k = EPSILON \<and> p = nfa_end n1
       then Some (successors (states \<sigma>) (nfa_end n1) EPSILON @ [nfa_start n1, length (states \<sigma>) + 1])
     else if k = EPSILON \<and> p = length (states \<sigma>)
       then Some [nfa_start n1, length (states \<sigma>) + 1]
     else read_transitions (states \<sigma>) p k)"
proof -
  define s where "s = length (states \<sigma>)"
  define \<sigma>1 where "\<sigma>1 = allocated (allocated \<sigma>)"
  define \<sigma>2 where "\<sigma>2 = addTransition s EPSILON (nfa_start n1) \<sigma>1"
  define \<sigma>3 where "\<sigma>3 = addTransition s EPSILON (s + 1) \<sigma>2"
  define \<sigma>4 where "\<sigma>4 = set_isAccept (nfa_end n1) False \<sigma>3"
  define \<sigma>5 where "\<sigma>5 = addTransition (nfa_end n1) EPSILON (nfa_start n1) \<sigma>4"
  define \<sigma>6 where "\<sigma>6 = addTransition (nfa_end n1) EPSILON (s + 1) \<sigma>5"
  have res: "star_result \<sigma> n1 = \<sigma>6"
    by (simp add: star_result_def Let_def \<sigma>6_def \<sigma>5_def \<sigma>4_def \<sigma>3_def \<sigma>2_def \<sigma>1_def s_def)
  have l1: "length (states \<sigma>1) = s + 2" by (simp add: \<sigma>1_def s_def)
  have l2: "length (states \<sigma>2) = s + 2" by (simp add: \<sigma>2_def l1)
  have l3: "length (states \<sigma>3) = s + 2" by (simp add: \<sigma>3_def l2)
  have l4: "length (states \<sigma>4) = s + 2" by (simp add: \<sigma>4_def l3)
  have l5: "length (states \<sigma>5) = s + 2" by (simp add: \<sigma>5_def l4)
  have e': "nfa_end n1 < s" "nfa_end n1 \<noteq> s" using e by (simp_all add: s_def)
  have r1: "read_transitions (states \<sigma>1) q c = read_transitions (states \<sigma>) q c" for q c
    by (simp add: \<sigma>1_def)
  have s1: "successors (states \<sigma>1) s EPSILON = []"
    by (simp add: successors_def r1 s_def read_outside)
  have r2: "read_transitions (states \<sigma>2) q c =
      (if q = s \<and> c = EPSILON then Some [nfa_start n1] else read_transitions (states \<sigma>) q c)" for q c
    unfolding \<sigma>2_def by (subst read_addTransition) (simp_all add: l1 s1 r1)
  have s2: "successors (states \<sigma>2) s EPSILON = [nfa_start n1]"
    by (simp add: successors_def r2)
  have r3: "read_transitions (states \<sigma>3) q c =
      (if q = s \<and> c = EPSILON then Some [nfa_start n1, s + 1] else read_transitions (states \<sigma>) q c)" for q c
    unfolding \<sigma>3_def by (subst read_addTransition) (simp_all add: l2 s2 r2)
  have r4: "read_transitions (states \<sigma>4) q c =
      (if q = s \<and> c = EPSILON then Some [nfa_start n1, s + 1] else read_transitions (states \<sigma>) q c)" for q c
    by (simp add: \<sigma>4_def r3)
  have s4: "successors (states \<sigma>4) (nfa_end n1) EPSILON = successors (states \<sigma>) (nfa_end n1) EPSILON"
    using e' by (simp add: successors_def r4)
  have r5: "read_transitions (states \<sigma>5) q c =
      (if q = nfa_end n1 \<and> c = EPSILON
         then Some (successors (states \<sigma>) (nfa_end n1) EPSILON @ [nfa_start n1])
       else read_transitions (states \<sigma>4) q c)" for q c
    unfolding \<sigma>5_def using e' by (subst read_addTransition) (simp_all add: l4 s4)
  have s5: "successors (states \<sigma>5) (nfa_end n1) EPSILON =
      successors (states \<sigma>) (nfa_end n1) EPSILON @ [nfa_start n1]"
    by (simp add: successors_def r5)
  have r6: "read_transitions (states \<sigma>6) q c =
      (if q = nfa_end n1 \<and> c = EPSILON
         then Some (successors (states \<sigma>) (nfa_end n1) EPSILON @ [nfa_start n1, s + 1])
       else read_transitions (states \<sigma>4) q c)" for q c
    unfolding \<sigma>6_def using e' by (subst read_addTransition) (simp_all add: l5 s5 r5)
  show ?thesis
    unfolding res r6 r4 by (simp add: s_def)
qed

lemma isAccept_star_result:
  assumes "nfa_end n1 < length (states \<sigma>)" and "a < length (states \<sigma>) + 2"
  shows "isAccept (states (star_result \<sigma> n1) ! a) \<longleftrightarrow>
           a < length (states \<sigma>) \<and> a \<noteq> nfa_end n1 \<and> isAccept (states \<sigma> ! a)"
  using assms
  by (cases "a < length (states \<sigma>) + 1")
    (auto simp: star_result_def Let_def isAccept_set_isAccept isAccept_allocated)

lemma state_id_star_result:
  assumes "a < length (states \<sigma>) + 2"
  shows "state_id (states (star_result \<sigma> n1) ! a) =
           (if a < length (states \<sigma>) then state_id (states \<sigma> ! a)
            else if a = length (states \<sigma>) then idCounter \<sigma> else idCounter \<sigma> + 1)"
  using assms
  by (simp add: star_result_def Let_def state_id_allocated)

text \<open>
  C5. On the token \<open>*\<close> with a fragment \<open>A\<close> on top of the stack (its end a state of
  the arena), the compiler pops \<open>A\<close>, allocates two fresh states \<open>start\<close> and \<open>end\<close>
  (the next two arena positions, with the next two identifiers), and pushes the fragment
  \<open>(start, end)\<close>. Afterwards \<open>start\<close> has the epsilon successors \<open>A.start, end\<close>,
  \<open>A.end\<close> has its former epsilon successors followed by \<open>A.start, end\<close>, every other
  transition list is as before (so \<open>end\<close> has none), \<open>A.end\<close> and the two fresh states
  are not accepting, and no other accept flag has changed.
\<close>

theorem star_step:
  assumes "nfa_end A < length (states \<sigma>)"
  shows "\<exists>\<sigma>'. compile_step STAR (\<sigma>, A # rest) =
            Some (\<sigma>', \<lparr>nfa_start = length (states \<sigma>), nfa_end = length (states \<sigma>) + 1\<rparr> # rest)
          \<and> length (states \<sigma>') = length (states \<sigma>) + 2
          \<and> state_id (states \<sigma>' ! length (states \<sigma>)) = idCounter \<sigma>
          \<and> state_id (states \<sigma>' ! (length (states \<sigma>) + 1)) = idCounter \<sigma> + 1
          \<and> (\<forall>p k. read_transitions (states \<sigma>') p k =
                (if k = EPSILON \<and> p = nfa_end A
                   then Some (successors (states \<sigma>) (nfa_end A) EPSILON
                              @ [nfa_start A, length (states \<sigma>) + 1])
                 else if k = EPSILON \<and> p = length (states \<sigma>)
                   then Some [nfa_start A, length (states \<sigma>) + 1]
                 else read_transitions (states \<sigma>) p k))
          \<and> (\<forall>a < length (states \<sigma>').
                isAccept (states \<sigma>' ! a) \<longleftrightarrow>
                  a < length (states \<sigma>) \<and> a \<noteq> nfa_end A \<and> isAccept (states \<sigma> ! a))"
proof (intro exI conjI)
  show "compile_step STAR (\<sigma>, A # rest) =
          Some (star_result \<sigma> A,
                \<lparr>nfa_start = length (states \<sigma>), nfa_end = length (states \<sigma>) + 1\<rparr> # rest)"
    by (simp add: compile_step_star fresh_fragment_def)
  show "length (states (star_result \<sigma> A)) = length (states \<sigma>) + 2"
    by simp
  show "state_id (states (star_result \<sigma> A) ! length (states \<sigma>)) = idCounter \<sigma>"
    by (simp add: state_id_star_result)
  show "state_id (states (star_result \<sigma> A) ! (length (states \<sigma>) + 1)) = idCounter \<sigma> + 1"
    by (simp add: state_id_star_result)
  show "\<forall>p k. read_transitions (states (star_result \<sigma> A)) p k =
                (if k = EPSILON \<and> p = nfa_end A
                   then Some (successors (states \<sigma>) (nfa_end A) EPSILON
                              @ [nfa_start A, length (states \<sigma>) + 1])
                 else if k = EPSILON \<and> p = length (states \<sigma>)
                   then Some [nfa_start A, length (states \<sigma>) + 1]
                 else read_transitions (states \<sigma>) p k)"
    using read_star_result [OF assms] by blast
  show "\<forall>a < length (states (star_result \<sigma> A)).
                isAccept (states (star_result \<sigma> A) ! a) \<longleftrightarrow>
                  a < length (states \<sigma>) \<and> a \<noteq> nfa_end A \<and> isAccept (states \<sigma> ! a)"
    using isAccept_star_result [OF assms] by simp
qed

lemma a_store_facts:
  "length (states a_store) = 2" "idCounter a_store = 2" "nfa_start a_nfa = 0" "nfa_end a_nfa = 1"
  "successors (states a_store) 1 EPSILON = []" "successors (states a_store) (Suc 0) EPSILON = []"
  by (simp_all add: a_store_def a_nfa_def successors_def read_transitions_def)

theorem star_step_witness:
  "nfa_end a_nfa < length (states a_store) \<and>
   (\<exists>\<sigma>'. compile_step STAR (a_store, [a_nfa]) = Some (\<sigma>', [\<lparr>nfa_start = 2, nfa_end = 3\<rparr>])
         \<and> length (states \<sigma>') = 4
         \<and> read_transitions (states \<sigma>') 2 EPSILON = Some [0, 3]
         \<and> read_transitions (states \<sigma>') 1 EPSILON = Some [0, 3]
         \<and> \<not> isAccept (states \<sigma>' ! 1))"
proof -
  have h: "nfa_end a_nfa < length (states a_store)"
    by (simp add: a_store_facts)
  from star_step [OF h, of "[]"] obtain \<sigma>' where
    s: "compile_step STAR (a_store, [a_nfa]) =
          Some (\<sigma>', [\<lparr>nfa_start = length (states a_store), nfa_end = length (states a_store) + 1\<rparr>])"
    and l: "length (states \<sigma>') = length (states a_store) + 2"
    and r: "\<forall>p k. read_transitions (states \<sigma>') p k =
                (if k = EPSILON \<and> p = nfa_end a_nfa
                   then Some (successors (states a_store) (nfa_end a_nfa) EPSILON
                              @ [nfa_start a_nfa, length (states a_store) + 1])
                 else if k = EPSILON \<and> p = length (states a_store)
                   then Some [nfa_start a_nfa, length (states a_store) + 1]
                 else read_transitions (states a_store) p k)"
    and a: "\<forall>a < length (states \<sigma>').
                isAccept (states \<sigma>' ! a) \<longleftrightarrow>
                  a < length (states a_store) \<and> a \<noteq> nfa_end a_nfa \<and> isAccept (states a_store ! a)"
    by blast
  have "read_transitions (states \<sigma>') 2 EPSILON = Some [0, 3]"
    "read_transitions (states \<sigma>') 1 EPSILON = Some [0, 3]"
    by (simp_all add: r a_store_facts)
  moreover have "\<not> isAccept (states \<sigma>' ! 1)"
    using a l by (simp add: a_store_facts)
  ultimately show ?thesis
    using h s l by (simp add: a_store_facts)
qed

section \<open>Examples of compilations\<close>

lemma compile_abb: "compileRegexToNFA (js ''(a|b)*abb'') = Some (abb_states, abb_nfa)"
  by code_simp

lemma compile_a_star: "compileRegexToNFA (js ''a*'') = Some (a_star_states, a_star_nfa)"
  by code_simp

lemma compile_paren_a: "compileRegexToNFA (js ''(a'') = Some (paren_a_states, paren_a_nfa)"
  by code_simp

lemma fragments_left_paren_a: "fragments_left (js ''(a'') = Some 2"
  by code_simp


lemma compile_lone_star: "compileRegexToNFA (js ''*'') = None"
  by code_simp

lemma compile_bar_a: "compileRegexToNFA (js ''|a'') = None"
  by code_simp

lemma compile_empty: "compileRegexToNFA [] = None"
  by code_simp

lemma postfix_lone_star: "codePoints (toPostfix (js ''*'')) = [] @ STAR # []"
  by code_simp

section \<open>Operand underflow\<close>

lemma compile_loop_append:
  "compile_loop (pre @ rest) acc =
     (case compile_loop pre acc of None \<Rightarrow> None | Some acc' \<Rightarrow> compile_loop rest acc')"
  by (induction pre arbitrary: acc) (auto split: option.splits)

lemma compile_step_underflow:
  "length stack < operands char \<Longrightarrow> compile_step char (\<sigma>, stack) = None"
  by (auto simp: operands_def compile_step_dot compile_step_bar compile_step_star
      split: if_splits list.splits)

lemma compile_underflow:
  assumes "codePoints (toPostfix pattern) = pre @ char # rest"
    and "compile_loop pre (init_store, []) = Some (\<sigma>, stack)"
    and "length stack < operands char"
  shows "compileRegexToNFA pattern = None"
  using assms compile_step_underflow [OF assms(3), of \<sigma>]
  by (simp add: compileRegexToNFA_def compile_loop_append)

text \<open>
  C3. \<open>compile("*")\<close>, \<open>compile("|a")\<close> and \<open>compile("")\<close> return \<open>null\<close>. In
  general, when the postfix string reaches an operator (\<open>.\<close> and \<open>|\<close> pop two
  fragments, \<open>*\<close> pops one) while the stack holds fewer fragments than it pops, the
  compilation returns \<open>null\<close>: the TypeError is caught, nothing escapes.
\<close>

theorem operand_underflow_returns_null:
  "compileRegexToNFA (js ''*'') = None \<and>
   compileRegexToNFA (js ''|a'') = None \<and>
   compileRegexToNFA [] = None \<and>
   (\<forall>pattern pre char rest \<sigma> stack.
      codePoints (toPostfix pattern) = pre @ char # rest \<and>
      compile_loop pre (init_store, []) = Some (\<sigma>, stack) \<and>
      length stack < operands char
      \<longrightarrow> compileRegexToNFA pattern = None)"
  using compile_lone_star compile_bar_a compile_empty compile_underflow by blast

theorem operand_underflow_witness:
  "codePoints (toPostfix (js ''*'')) = [] @ STAR # [] \<and>
   compile_loop [] (init_store, []) = Some (init_store, []) \<and>
   length ([] :: NFA list) < operands STAR \<and>
   compileRegexToNFA (js ''*'') = None"
proof -
  have h: "codePoints (toPostfix (js ''*'')) = [] @ STAR # [] \<and>
      compile_loop [] (init_store, []) = Some (init_store, []) \<and>
      length ([] :: NFA list) < operands STAR"
    using postfix_lone_star by (simp add: operands_def)
  with operand_underflow_returns_null have "compileRegexToNFA (js ''*'') = None"
    by blast
  with h show ?thesis by blast
qed

section \<open>What the compiler returns\<close>

lemma compile_result:
  assumes "compileRegexToNFA pattern = Some (h, nfa)"
  obtains \<sigma> rest where
    "compile_loop (codePoints (toPostfix pattern)) (init_store, []) = Some (\<sigma>, nfa # rest)"
    and "h = states (set_isAccept (nfa_end nfa) True \<sigma>)"
    and "compile_inv (\<sigma>, nfa # rest)"
proof -
  from assms obtain \<sigma> rest where
    loop: "compile_loop (codePoints (toPostfix pattern)) (init_store, []) = Some (\<sigma>, nfa # rest)"
    and h: "h = states (set_isAccept (nfa_end nfa) True \<sigma>)"
    by (auto simp: compileRegexToNFA_def Let_def split: option.splits list.splits)
  from compile_loop_inv [OF compile_inv_init loop] have "compile_inv (\<sigma>, nfa # rest)" .
  with loop h show thesis by (rule that)
qed

lemma compile_some_iff:
  "compileRegexToNFA pattern \<noteq> None \<longleftrightarrow> (\<exists>n. fragments_left pattern = Some (Suc n))"
  by (auto simp: compileRegexToNFA_def fragments_left_def Let_def split: option.splits list.splits)

lemma compile_top:
  assumes "compileRegexToNFA pattern = Some (h, nfa)"
  shows "\<exists>\<sigma> rest. compile_loop (codePoints (toPostfix pattern)) (init_store, []) = Some (\<sigma>, nfa # rest)
           \<and> nfa_end nfa < length (states \<sigma>)
           \<and> h = (states \<sigma>)[nfa_end nfa := (states \<sigma> ! nfa_end nfa)\<lparr>isAccept := True\<rparr>]"
proof -
  from assms obtain \<sigma> rest where
    loop: "compile_loop (codePoints (toPostfix pattern)) (init_store, []) = Some (\<sigma>, nfa # rest)"
    and h: "h = states (set_isAccept (nfa_end nfa) True \<sigma>)"
    and inv: "compile_inv (\<sigma>, nfa # rest)"
    by (rule compile_result)
  from inv have "nfa_end nfa < length (states \<sigma>)"
    by (simp add: compile_inv_def wf_fragment_def)
  with loop h show ?thesis
    by (auto simp: set_isAccept_def modify_def)
qed

text \<open>
  C2, as the claim states it, fails: for the pattern \<open>(a\<close> the postfix string is
  \<open>a(\<close>, two fragments are on the stack when it is consumed, and the compiler returns
  the top one, the literal \<open>(\<close>.
\<close>

theorem leftover_fragments_counterexample:
  "fragments_left (js ''(a'') = Some 2 \<and>
   compileRegexToNFA (js ''(a'') = Some (paren_a_states, paren_a_nfa)"
  using fragments_left_paren_a compile_paren_a by (rule conjI)

text \<open>
  C2, amended. The compiler returns an automaton exactly when the postfix string is
  consumed without a throw and at least one fragment is left on the stack. The
  automaton is then the fragment on top of the stack, with the arena as the loop left
  it except that this fragment's end state is accepting. In every other case (a throw,
  or an empty stack, which includes the empty postfix string) it returns \<open>null\<close>.
\<close>

theorem compile_returns_top_fragment:
  "(compileRegexToNFA pattern \<noteq> None \<longleftrightarrow> (\<exists>n. fragments_left pattern = Some (Suc n))) \<and>
   (\<forall>h nfa. compileRegexToNFA pattern = Some (h, nfa) \<longrightarrow>
      (\<exists>\<sigma> rest.
         compile_loop (codePoints (toPostfix pattern)) (init_store, []) = Some (\<sigma>, nfa # rest)
         \<and> nfa_end nfa < length (states \<sigma>)
         \<and> h = (states \<sigma>)[nfa_end nfa := (states \<sigma> ! nfa_end nfa)\<lparr>isAccept := True\<rparr>]))"
  using compile_some_iff compile_top by blast

theorem compile_returns_top_fragment_witness:
  "compileRegexToNFA (js ''(a'') = Some (paren_a_states, paren_a_nfa) \<and>
   (\<exists>n. fragments_left (js ''(a'') = Some (Suc n)) \<and>
   (\<exists>\<sigma> rest.
      compile_loop (codePoints (toPostfix (js ''(a''))) (init_store, []) = Some (\<sigma>, paren_a_nfa # rest)
      \<and> nfa_end paren_a_nfa < length (states \<sigma>)
      \<and> paren_a_states = (states \<sigma>)[nfa_end paren_a_nfa := (states \<sigma> ! nfa_end paren_a_nfa)\<lparr>isAccept := True\<rparr>])"
  using compile_returns_top_fragment [of "js ''(a''"] compile_paren_a by auto

section \<open>The accepting state\<close>

lemma compile_wf:
  assumes "compileRegexToNFA pattern = Some (h, nfa)"
  shows "wf_arena h" and "wf_fragment h nfa"
    and "\<forall>a < length h. isAccept (h ! a) \<longleftrightarrow> a = nfa_end nfa"
proof -
  from assms obtain \<sigma> rest where
    h: "h = states (set_isAccept (nfa_end nfa) True \<sigma>)"
    and inv: "compile_inv (\<sigma>, nfa # rest)"
    by (rule compile_result)
  from inv have wf: "wf_store \<sigma>" and fr: "wf_fragment (states \<sigma>) nfa"
    by (simp_all add: compile_inv_def)
  show "wf_arena h"
    using wf by (simp add: h wf_arena_def wf_store_def)
  show "wf_fragment h nfa"
    unfolding h by (rule wf_fragment_mono [OF fr]) simp_all
  show "\<forall>a < length h. isAccept (h ! a) \<longleftrightarrow> a = nfa_end nfa"
    using wf by (simp add: h wf_store_def isAccept_set_isAccept)
qed

lemma reachable_valid:
  "reachable h a b \<Longrightarrow> wf_arena h \<Longrightarrow> a < length h \<Longrightarrow> b < length h"
  by (induction rule: reachable.induct) (auto simp: wf_arena_def)

text \<open>
  C9. In the arena of a compiled automaton exactly one state is accepting, the end state
  of the returned fragment, and it is reachable from the start state. So the accepting
  states reachable from the start are that one state.
\<close>

theorem one_accepting_state:
  assumes "compileRegexToNFA pattern = Some (h, nfa)"
  shows "{q. reachable h (nfa_start nfa) q \<and> isAccept (h ! q)} = {nfa_end nfa}
       \<and> (\<forall>q < length h. isAccept (h ! q) \<longleftrightarrow> q = nfa_end nfa)"
proof -
  note wf = compile_wf [OF assms]
  from wf(2) have s: "nfa_start nfa < length h" and e: "nfa_end nfa < length h"
    and r: "reachable h (nfa_start nfa) (nfa_end nfa)"
    by (simp_all add: wf_fragment_def)
  have "\<And>q. reachable h (nfa_start nfa) q \<Longrightarrow> q < length h"
    using reachable_valid [OF _ wf(1) s] .
  with wf(3) r e show ?thesis by auto
qed

theorem one_accepting_state_witness:
  "compileRegexToNFA (js ''a*'') = Some (a_star_states, a_star_nfa) \<and>
   {q. reachable a_star_states (nfa_start a_star_nfa) q \<and> isAccept (a_star_states ! q)}
     = {nfa_end a_star_nfa} \<and>
   (3::nat) < length a_star_states \<and>
   (isAccept (a_star_states ! 3) \<longleftrightarrow> 3 = nfa_end a_star_nfa) \<and>
   (2::nat) < length a_star_states \<and>
   (isAccept (a_star_states ! 2) \<longleftrightarrow> 2 = nfa_end a_star_nfa)"
proof -
  have l: "(3::nat) < length a_star_states" "(2::nat) < length a_star_states"
    by (simp_all add: a_star_states_def)
  from one_accepting_state [OF compile_a_star] l compile_a_star
  show ?thesis
    by blast
qed

section \<open>The simulator on a compiled automaton\<close>

text \<open>
  What a call of \<open>addState\<close> that returns has done: the set has grown, by states of the
  arena, without repetition. A nested call is made only after a state outside the set
  has been added, so the calls return whenever the call stack has room for more
  activations than there are states outside the set; and more room changes no result.
\<close>

lemma unvisited_mono: "set v \<subseteq> set w \<Longrightarrow> unvisited h w \<le> unvisited h v"
  unfolding unvisited_def by (intro card_mono) auto

lemma unvisited_less:
  "s < length h \<Longrightarrow> s \<notin> set v \<Longrightarrow> unvisited h (v @ [s]) < unvisited h v"
  unfolding unvisited_def by (intro psubset_card_mono) auto

lemma unvisited_le_length: "unvisited h v \<le> length h"
  unfolding unvisited_def using card_mono [of "{..<length h}" "{..<length h} - set v"] by simp

lemma read_transitions_valid: "read_transitions h s c = Some ns \<Longrightarrow> s < length h"
  by (simp add: read_transitions_def split: if_splits)

lemma addState_grows:
  "addState stack h s visited = Inr r \<Longrightarrow> set visited \<subseteq> set r \<and> s \<in> set r"
  "addState_forEach stack h nexts visited = Inr r \<Longrightarrow> set visited \<subseteq> set r \<and> set nexts \<subseteq> set r"
proof (induction stack h s visited and stack h nexts visited arbitrary: r and r
    rule: addState_addState_forEach.induct)
  case (1 h s visited)
  then show ?case by simp
next
  case (2 stack h s visited)
  show ?case
  proof (cases "s \<in> set visited")
    case True
    with "2.prems" show ?thesis by auto
  next
    case False
    show ?thesis
    proof (cases "read_transitions h s EPSILON")
      case None
      with False "2.prems" show ?thesis by auto
    next
      case (Some nexts)
      with False "2.prems" have "addState_forEach stack h nexts (visited @ [s]) = Inr r"
        by simp
      from "2.IH" [OF False Some this] show ?thesis by simp
    qed
  qed
next
  case (3 stack h visited)
  then show ?case by simp
next
  case (4 stack h "next" nexts visited)
  from "4.prems" obtain v' where a: "addState stack h next visited = Inr v'"
    and f: "addState_forEach stack h nexts v' = Inr r"
    by (auto split: sum.splits)
  from "4.IH"(1) [OF a] "4.IH"(2) [OF a f] show ?case by auto
qed

lemma addState_returns:
  "unvisited h visited < stack \<Longrightarrow> \<exists>r. addState stack h s visited = Inr r"
  "unvisited h visited < stack \<or> nexts = [] \<Longrightarrow> \<exists>r. addState_forEach stack h nexts visited = Inr r"
proof (induction stack h s visited and stack h nexts visited
    rule: addState_addState_forEach.induct)
  case (1 h s visited)
  then show ?case by simp
next
  case (2 stack h s visited)
  show ?case
  proof (cases "s \<in> set visited")
    case True
    then show ?thesis by simp
  next
    case False
    show ?thesis
    proof (cases "read_transitions h s EPSILON")
      case None
      with False show ?thesis by simp
    next
      case (Some nexts)
      have "unvisited h (visited @ [s]) < unvisited h visited"
        using unvisited_less [OF read_transitions_valid [OF Some] False] .
      with "2.prems" have "unvisited h (visited @ [s]) < stack" by simp
      with "2.IH" [OF False Some] False Some show ?thesis by simp
    qed
  qed
next
  case (3 stack h visited)
  then show ?case by simp
next
  case (4 stack h "next" nexts visited)
  from "4.prems" have u: "unvisited h visited < stack" by simp
  from "4.IH"(1) [OF u] obtain v' where a: "addState stack h next visited = Inr v'"
    by blast
  have "unvisited h v' \<le> unvisited h visited"
    using addState_grows(1) [OF a] by (simp add: unvisited_mono)
  with u have "unvisited h v' < stack" by simp
  with "4.IH"(2) [OF a] a show ?case by simp
qed

lemma closure_returns: "\<exists>r. addState (Suc (length h)) h s [] = Inr r \<and> closure h s = r"
proof -
  have "unvisited h [] < Suc (length h)"
    using unvisited_le_length [of h "[]"] by simp
  from addState_returns(1) [OF this] obtain r where
    "addState (Suc (length h)) h s [] = Inr r" by blast
  then show ?thesis
    by (simp add: closure_def)
qed

lemma addState_stack_mono:
  "addState stack h s visited = Inr r \<Longrightarrow> stack \<le> stack' \<Longrightarrow> addState stack' h s visited = Inr r"
  "addState_forEach stack h nexts visited = Inr r \<Longrightarrow> stack \<le> stack' \<Longrightarrow>
     addState_forEach stack' h nexts visited = Inr r"
proof (induction stack h s visited and stack h nexts visited arbitrary: r stack' and r stack'
    rule: addState_addState_forEach.induct)
  case (1 h s visited)
  then show ?case by simp
next
  case (2 stack h s visited)
  from "2.prems"(2) obtain k where k: "stack' = Suc k" "stack \<le> k"
    by (cases stack') auto
  show ?case
  proof (cases "s \<in> set visited")
    case True
    with "2.prems" k show ?thesis by simp
  next
    case False
    show ?thesis
    proof (cases "read_transitions h s EPSILON")
      case None
      with False "2.prems" k show ?thesis by simp
    next
      case (Some nexts)
      with False "2.prems" have "addState_forEach stack h nexts (visited @ [s]) = Inr r"
        by simp
      from "2.IH" [OF False Some this k(2)] False Some k show ?thesis by simp
    qed
  qed
next
  case (3 stack h visited)
  then show ?case by simp
next
  case (4 stack h "next" nexts visited)
  from "4.prems" obtain v' where a: "addState stack h next visited = Inr v'"
    and f: "addState_forEach stack h nexts v' = Inr r"
    by (auto split: sum.splits)
  from "4.IH"(1) [OF a "4.prems"(2)] "4.IH"(2) [OF a f "4.prems"(2)] show ?case by simp
qed

lemma addState_distinct:
  "addState stack h s visited = Inr r \<Longrightarrow> distinct visited \<Longrightarrow> distinct r"
  "addState_forEach stack h nexts visited = Inr r \<Longrightarrow> distinct visited \<Longrightarrow> distinct r"
proof (induction stack h s visited and stack h nexts visited arbitrary: r and r
    rule: addState_addState_forEach.induct)
  case (1 h s visited)
  then show ?case by simp
next
  case (2 stack h s visited)
  show ?case
  proof (cases "s \<in> set visited")
    case True
    with "2.prems" show ?thesis by auto
  next
    case False
    show ?thesis
    proof (cases "read_transitions h s EPSILON")
      case None
      with False "2.prems" show ?thesis by auto
    next
      case (Some nexts)
      with False "2.prems" have "addState_forEach stack h nexts (visited @ [s]) = Inr r"
        by simp
      from "2.IH" [OF False Some this] False "2.prems"(2) show ?thesis by simp
    qed
  qed
next
  case (3 stack h visited)
  then show ?case by simp
next
  case (4 stack h "next" nexts visited)
  from "4.prems" obtain v' where a: "addState stack h next visited = Inr v'"
    and f: "addState_forEach stack h nexts v' = Inr r"
    by (auto split: sum.splits)
  from "4.IH"(2) [OF a f "4.IH"(1) [OF a "4.prems"(2)]] show ?case .
qed

lemma read_targets:
  "wf_arena h \<Longrightarrow> read_transitions h s k = Some nexts \<Longrightarrow> set nexts \<subseteq> {..<length h}"
  by (auto simp: wf_arena_def has_transition_def split: option.splits)

lemma addState_valid:
  "addState stack h s visited = Inr r \<Longrightarrow> wf_arena h \<Longrightarrow> s < length h \<Longrightarrow>
     set visited \<subseteq> {..<length h} \<Longrightarrow> set r \<subseteq> {..<length h}"
  "addState_forEach stack h nexts visited = Inr r \<Longrightarrow> wf_arena h \<Longrightarrow>
     set nexts \<subseteq> {..<length h} \<Longrightarrow> set visited \<subseteq> {..<length h} \<Longrightarrow> set r \<subseteq> {..<length h}"
proof (induction stack h s visited and stack h nexts visited arbitrary: r and r
    rule: addState_addState_forEach.induct)
  case (1 h s visited)
  then show ?case by simp
next
  case (2 stack h s visited)
  show ?case
  proof (cases "s \<in> set visited")
    case True
    with "2.prems" show ?thesis by auto
  next
    case False
    show ?thesis
    proof (cases "read_transitions h s EPSILON")
      case None
      with False "2.prems" show ?thesis by auto
    next
      case (Some nexts)
      with False "2.prems" have "addState_forEach stack h nexts (visited @ [s]) = Inr r"
        by simp
      from "2.IH" [OF False Some this "2.prems"(2) read_targets [OF "2.prems"(2) Some]]
        "2.prems"(3,4)
      show ?thesis by simp
    qed
  qed
next
  case (3 stack h visited)
  then show ?case by simp
next
  case (4 stack h "next" nexts visited)
  from "4.prems"(1) obtain v' where a: "addState stack h next visited = Inr v'"
    and f: "addState_forEach stack h nexts v' = Inr r"
    by (auto split: sum.splits)
  have "set v' \<subseteq> {..<length h}"
    using "4.IH"(1) [OF a "4.prems"(2)] "4.prems"(3,4) by simp
  with "4.IH"(2) [OF a f "4.prems"(2)] "4.prems"(3) show ?case by simp
qed

lemma step_forEach_returns:
  "length h < stack \<Longrightarrow> \<exists>r. step_forEach stack h char current nextStates = Inr r"
proof (induction current arbitrary: nextStates)
  case Nil
  then show ?case by simp
next
  case (Cons s current)
  show ?case
  proof (cases "read_transitions h s char")
    case None
    with Cons show ?thesis by simp
  next
    case (Some nexts)
    have "unvisited h nextStates < stack"
      using unvisited_le_length [of h nextStates] Cons.prems by simp
    then obtain v where "addState_forEach stack h nexts nextStates = Inr v"
      using addState_returns(2) [of h nextStates stack nexts] by blast
    with Cons Some show ?thesis by simp
  qed
qed

lemma simulate_loop_returns:
  "length h < stack \<Longrightarrow> \<exists>r. simulate_loop stack h chars current = Inr r"
proof (induction chars arbitrary: current)
  case Nil
  then show ?case by simp
next
  case (Cons char chars)
  from step_forEach_returns [OF Cons.prems] obtain v where
    "step_forEach stack h char current [] = Inr v" by blast
  with Cons show ?case by simp
qed

lemma step_forEach_distinct:
  "step_forEach stack h char current nextStates = Inr r \<Longrightarrow> distinct nextStates \<Longrightarrow> distinct r"
proof (induction current arbitrary: nextStates)
  case Nil
  then show ?case by simp
next
  case (Cons s current)
  show ?case
  proof (cases "read_transitions h s char")
    case None
    with Cons show ?thesis by simp
  next
    case (Some nexts)
    with Cons.prems(1) obtain v where a: "addState_forEach stack h nexts nextStates = Inr v"
      and f: "step_forEach stack h char current v = Inr r"
      by (auto split: sum.splits)
    from Cons.IH [OF f addState_distinct(2) [OF a Cons.prems(2)]] show ?thesis .
  qed
qed

lemma step_forEach_valid:
  "step_forEach stack h char current nextStates = Inr r \<Longrightarrow> wf_arena h \<Longrightarrow>
   set nextStates \<subseteq> {..<length h} \<Longrightarrow> set r \<subseteq> {..<length h}"
proof (induction current arbitrary: nextStates)
  case Nil
  then show ?case by simp
next
  case (Cons s current)
  show ?case
  proof (cases "read_transitions h s char")
    case None
    with Cons show ?thesis by simp
  next
    case (Some nexts)
    with Cons.prems(1) obtain v where a: "addState_forEach stack h nexts nextStates = Inr v"
      and f: "step_forEach stack h char current v = Inr r"
      by (auto split: sum.splits)
    have "set v \<subseteq> {..<length h}"
      using addState_valid(2) [OF a Cons.prems(2) read_targets [OF Cons.prems(2) Some] Cons.prems(3)] .
    from Cons.IH [OF f Cons.prems(2) this] show ?thesis .
  qed
qed

lemma simulate_loop_ok:
  "simulate_loop stack h chars current = Inr r \<Longrightarrow> wf_arena h \<Longrightarrow> distinct current \<Longrightarrow>
   set current \<subseteq> {..<length h} \<Longrightarrow> distinct r \<and> set r \<subseteq> {..<length h}"
proof (induction chars arbitrary: current)
  case Nil
  then show ?case by simp
next
  case (Cons char chars)
  from Cons.prems(1) obtain v where s: "step_forEach stack h char current [] = Inr v"
    and l: "simulate_loop stack h chars v = Inr r"
    by (auto split: sum.splits)
  have "distinct v"
    using step_forEach_distinct [OF s] by simp
  moreover have "set v \<subseteq> {..<length h}"
    using step_forEach_valid [OF s Cons.prems(2)] by simp
  ultimately show ?case
    using Cons.IH [OF l Cons.prems(2)] by simp
qed

lemma step_forEach_stack_mono:
  "step_forEach stack h char current nextStates = Inr r \<Longrightarrow> stack \<le> stack' \<Longrightarrow>
   step_forEach stack' h char current nextStates = Inr r"
proof (induction current arbitrary: nextStates)
  case Nil
  then show ?case by simp
next
  case (Cons s current)
  show ?case
  proof (cases "read_transitions h s char")
    case None
    with Cons show ?thesis by simp
  next
    case (Some nexts)
    with Cons.prems(1) obtain v where a: "addState_forEach stack h nexts nextStates = Inr v"
      and f: "step_forEach stack h char current v = Inr r"
      by (auto split: sum.splits)
    from addState_stack_mono(2) [OF a Cons.prems(2)] Cons.IH [OF f Cons.prems(2)] Some
    show ?thesis by simp
  qed
qed

lemma simulate_loop_stack_mono:
  "simulate_loop stack h chars current = Inr r \<Longrightarrow> stack \<le> stack' \<Longrightarrow>
   simulate_loop stack' h chars current = Inr r"
proof (induction chars arbitrary: current)
  case Nil
  then show ?case by simp
next
  case (Cons char chars)
  from Cons.prems(1) obtain v where s: "step_forEach stack h char current [] = Inr v"
    and l: "simulate_loop stack h chars v = Inr r"
    by (auto split: sum.splits)
  from step_forEach_stack_mono [OF s Cons.prems(2)] Cons.IH [OF l Cons.prems(2)]
  show ?case by simp
qed

lemma simulate_stack_mono:
  assumes "simulate stack h nfa testString = Inr res" and "stack \<le> stack'"
  shows "simulate stack' h nfa testString = Inr res"
proof (cases "testString = []")
  case True
  with assms show ?thesis by (simp add: simulate_def)
next
  case False
  with assms(1) obtain c r where a: "addState stack h (nfa_start nfa) [] = Inr c"
    and l: "simulate_loop stack h (split_units testString) c = Inr r"
    and res: "res = (map (\<lambda>s. state_id (h ! s)) r, list_ex (\<lambda>s. isAccept (h ! s)) r)"
    by (auto simp: simulate_def Let_def split: sum.splits)
  from addState_stack_mono(1) [OF a assms(2)] simulate_loop_stack_mono [OF l assms(2)] False res
  show ?thesis by (simp add: simulate_def Let_def)
qed

lemma map_state_id:
  "wf_arena h \<Longrightarrow> set xs \<subseteq> {..<length h} \<Longrightarrow> map (\<lambda>s. state_id (h ! s)) xs = xs"
  by (induction xs) (auto simp: wf_arena_def)

lemma state_ids_arena: "wf_arena h \<Longrightarrow> state_id ` set h = {..<length h}"
proof -
  assume wf: "wf_arena h"
  have "state_id ` set h = (\<lambda>a. state_id (h ! a)) ` {..<length h}"
    by (auto simp: set_conv_nth image_iff)
  also have "\<dots> = {..<length h}"
    using wf by (auto simp: wf_arena_def image_iff)
  finally show ?thesis .
qed

lemma simulate_nonempty:
  assumes "testString \<noteq> []" and "simulate stack h nfa testString = Inr (activeIds, matchFound)"
  obtains c r where "addState stack h (nfa_start nfa) [] = Inr c"
    and "simulate_loop stack h (split_units testString) c = Inr r"
    and "activeIds = map (\<lambda>s. state_id (h ! s)) r"
    and "matchFound = list_ex (\<lambda>s. isAccept (h ! s)) r"
  using assms by (auto simp: simulate_def Let_def split: sum.splits)

lemma simulate_ok:
  assumes "wf_arena h" and "nfa_start nfa < length h"
    and "simulate stack h nfa testString = Inr (activeIds, matchFound)"
  shows "distinct activeIds \<and> set activeIds \<subseteq> {..<length h}"
proof (cases "testString = []")
  case True
  then show ?thesis
    using assms by (auto simp: simulate_def wf_arena_def)
next
  case False
  from False assms(3) obtain c r where a: "addState stack h (nfa_start nfa) [] = Inr c"
    and l: "simulate_loop stack h (split_units testString) c = Inr r"
    and ids: "activeIds = map (\<lambda>s. state_id (h ! s)) r"
    by (rule simulate_nonempty)
  have c0: "distinct c" "set c \<subseteq> {..<length h}"
    using addState_distinct(1) [OF a] addState_valid(1) [OF a assms(1,2)] by simp_all
  have r: "distinct r \<and> set r \<subseteq> {..<length h}"
    using simulate_loop_ok [OF l assms(1) c0] .
  then show ?thesis
    by (simp add: ids map_state_id [OF assms(1)])
qed

lemma simulate_returns:
  assumes "length h < stack"
  shows "\<exists>activeIds matchFound. simulate stack h nfa testString = Inr (activeIds, matchFound)"
proof (cases "testString = []")
  case True
  then have "simulate stack h nfa testString = Inr ([state_id (h ! nfa_start nfa)], False)"
    by (simp add: simulate_def)
  then show ?thesis by blast
next
  case False
  have "unvisited h [] < stack"
    using unvisited_le_length [of h "[]"] assms by simp
  then obtain c where a: "addState stack h (nfa_start nfa) [] = Inr c"
    using addState_returns(1) by blast
  from simulate_loop_returns [OF assms] obtain r where
    "simulate_loop stack h (split_units testString) c = Inr r" by blast
  with a False show ?thesis by (simp add: simulate_def Let_def)
qed

section \<open>A tower of stars\<close>

text \<open>
  The letter \<open>a\<close> followed by \<open>n\<close> stars is left as it is by the normalizer and by the
  translator, and compiles to a tower: star \<open>k\<close> has its start state at \<open>2 * k\<close>, with the
  epsilon successors \<open>2 * k - 2\<close> and \<open>2 * k + 1\<close>. From the start state of the automaton
  the closure runs down the start states, one nested call each.
\<close>

lemma not_concat_here_a_stars: "\<not> concat_here (a_stars n) i"
  by (auto simp: concat_here_def a_stars_def alnum_unit_def)

lemma concat_map_singleton: "concat (map (\<lambda>u. [u]) p) = p"
  by (induction p) simp_all

lemma insertConcat_a_stars: "insertConcat (a_stars n) = a_stars n"
proof -
  have "insertConcat (a_stars n) = concat (map (\<lambda>i. [a_stars n ! i]) [0..<length (a_stars n)])"
    by (simp add: insertConcat_def insertConcat_loop_eq not_concat_here_a_stars)
  also have "\<dots> = concat (map (\<lambda>u. [u]) (map (nth (a_stars n)) [0..<length (a_stars n)]))"
    by (simp add: comp_def)
  also have "\<dots> = a_stars n"
    by (simp only: map_nth concat_map_singleton)
  finally show ?thesis .
qed

lemma codePoints_units:
  "\<forall>u \<in> set s. \<not> isHighSurrogate u \<Longrightarrow> codePoints s = map (\<lambda>u. [u]) s"
  by (induction s rule: codePoints.induct) simp_all

lemma codePoints_a_stars: "codePoints (a_stars n) = [0x61] # replicate n STAR"
proof -
  have "\<forall>u \<in> set (a_stars n). \<not> isHighSurrogate u"
    by (auto simp: a_stars_def isHighSurrogate_def)
  from codePoints_units [OF this] show ?thesis
    by (simp add: a_stars_def STAR_def)
qed

lemma toPostfix_step_a: "toPostfix_step [0x61] ([], []) = ([0x61], [])"
  by (simp add: toPostfix_step_def regex_test_def alnum_unit_def)

lemma toPostfix_step_star_empty: "toPostfix_step STAR (out, []) = (out, [STAR])"
  by (simp add: toPostfix_step_def regex_test_def alnum_unit_def STAR_def LPAREN_def RPAREN_def)

lemma toPostfix_step_star_star: "toPostfix_step STAR (out, [STAR]) = (out @ STAR, [STAR])"
  by (simp add: toPostfix_step_def regex_test_def alnum_unit_def STAR_def LPAREN_def RPAREN_def
      js_ge_def precedence_def)

lemma toPostfix_loop_stars:
  "toPostfix_loop (replicate n STAR) (out, [STAR]) = (out @ replicate n 0x2A, [STAR])"
proof (induction n arbitrary: out)
  case 0
  then show ?case by simp
next
  case (Suc n)
  show ?case
    using Suc [of "out @ STAR"] by (simp add: toPostfix_step_star_star) (simp add: STAR_def)
qed

lemma toPostfix_a_stars: "toPostfix (a_stars n) = a_stars n"
proof (cases n)
  case 0
  then show ?thesis
    by (simp add: toPostfix_def insertConcat_a_stars codePoints_a_stars toPostfix_step_a)
      (simp add: a_stars_def)
next
  case (Suc m)
  have "toPostfix_loop (codePoints (a_stars n)) ([], []) = ([0x61] @ replicate m 0x2A, [STAR])"
    by (simp add: Suc codePoints_a_stars toPostfix_step_a toPostfix_step_star_empty
        toPostfix_loop_stars)
  then show ?thesis
    by (simp add: toPostfix_def insertConcat_a_stars) (simp add: a_stars_def Suc STAR_def
        replicate_append_same)
qed

lemma length_star_tower: "length (states (star_tower n)) = 2 * n + 2"
  by (induction n) (simp_all add: init_store_def)

lemma fresh_star_tower: "fresh_fragment (star_tower n) = tower_nfa (Suc n)"
  by (simp add: fresh_fragment_def tower_nfa_def length_star_tower)

lemma compile_loop_stars:
  "compile_loop (replicate n STAR) (star_tower k, [tower_nfa k]) =
     Some (star_tower (k + n), [tower_nfa (k + n)])"
proof (induction n arbitrary: k)
  case 0
  then show ?case by simp
next
  case (Suc n)
  have "compile_step STAR (star_tower k, [tower_nfa k]) =
      Some (star_tower (Suc k), [tower_nfa (Suc k)])"
    by (simp add: compile_step_star fresh_star_tower) (simp add: tower_nfa_def)
  then show ?case
    using Suc [of "Suc k"] by simp
qed

lemma a_not_operator: "[0x61] \<noteq> DOT" "[0x61] \<noteq> BAR" "[0x61] \<noteq> STAR"
  by (simp_all add: DOT_def BAR_def STAR_def)

lemma compile_a_stars: "compileRegexToNFA (a_stars n) = Some (tower_states n, tower_nfa n)"
proof -
  have "compile_step [0x61] (init_store, []) = Some (star_tower 0, [tower_nfa 0])"
    by (simp add: compile_step_literal a_not_operator fresh_fragment_def tower_nfa_def
        init_store_def)
  then have "compile_loop (codePoints (toPostfix (a_stars n))) (init_store, []) =
      Some (star_tower n, [tower_nfa n])"
    using compile_loop_stars [of n 0] by (simp add: toPostfix_a_stars codePoints_a_stars)
  then show ?thesis
    by (simp add: compileRegexToNFA_def tower_states_def tower_nfa_def)
qed

lemma read_star_tower:
  "k < n \<Longrightarrow> read_transitions (states (star_tower n)) (2 * k + 2) EPSILON = Some [2 * k, 2 * k + 3]"
proof (induction n)
  case 0
  then show ?case by simp
next
  case (Suc n)
  have e: "nfa_end \<lparr>nfa_start = 2 * n, nfa_end = 2 * n + 1\<rparr> < length (states (star_tower n))"
    by (simp add: length_star_tower)
  have odd: "2 * k + 2 \<noteq> 2 * n + 1"
    by presburger
  have rs: "read_transitions (states (star_tower (Suc n))) (2 * k + 2) EPSILON =
      (if k = n then Some [2 * n, 2 * n + 3]
       else read_transitions (states (star_tower n)) (2 * k + 2) EPSILON)"
    using read_star_result [OF e, of "2 * k + 2" EPSILON] odd
    by (simp add: length_star_tower)
  show ?case
  proof (cases "k = n")
    case True
    then show ?thesis
      by (subst rs) simp
  next
    case False
    with Suc.prems have "k < n" by simp
    from Suc.IH [OF this] False show ?thesis
      by (subst rs) simp
  qed
qed

lemma read_tower_states:
  "k < n \<Longrightarrow> read_transitions (tower_states n) (2 * k + 2) EPSILON = Some [2 * k, 2 * k + 3]"
  unfolding tower_states_def read_set_isAccept by (rule read_star_tower)

lemma tower_overflow:
  "d \<le> k \<Longrightarrow> k \<le> n \<Longrightarrow> \<forall>j \<le> k. 2 * j \<notin> set visited \<Longrightarrow>
   addState d (tower_states n) (2 * k) visited = Inl RangeError"
proof (induction d arbitrary: k visited)
  case 0
  then show ?case by simp
next
  case (Suc d)
  from Suc.prems(1) obtain k' where k: "k = Suc k'" by (cases k) auto
  have new: "2 * k \<notin> set visited"
    using Suc.prems(3) by simp
  have r: "read_transitions (tower_states n) (2 * k) EPSILON = Some [2 * k', 2 * k' + 3]"
    using read_tower_states [of k' n] Suc.prems(2) by (simp add: k)
  have "\<forall>j \<le> k'. 2 * j \<notin> set (visited @ [2 * k])"
    using Suc.prems(3) by (auto simp: k)
  with Suc.IH [of k' "visited @ [2 * k]"] Suc.prems(1,2)
  have "addState d (tower_states n) (2 * k') (visited @ [2 * k]) = Inl RangeError"
    by (simp add: k)
  with new r show ?case by simp
qed

lemma simulate_tower_overflow:
  assumes "stack \<le> n" and "testString \<noteq> []"
  shows "simulate stack (tower_states n) (tower_nfa n) testString = Inl RangeError"
proof -
  have "addState stack (tower_states n) (2 * n) [] = Inl RangeError"
    using tower_overflow [OF assms(1), of n "[]"] by simp
  with assms(2) show ?thesis
    by (simp add: simulate_def tower_nfa_def)
qed

lemma RegexAutomata_tower_overflow:
  "stack \<le> n \<Longrightarrow> testString \<noteq> [] \<Longrightarrow>
   RegexAutomata stack (a_stars n) testString = Some (Inl RangeError)"
  by (simp add: RegexAutomata_def compile_a_stars simulate_tower_overflow)

lemma js_a_nonempty: "js ''a'' \<noteq> []"
  by (simp add: js_def)

section \<open>The closure and the call stack\<close>

text \<open>
  C8, as the claim states it, fails. \<open>addState\<close> calls itself once per link of a chain
  of epsilon transitions, and the engine's call stack is finite. The pattern \<open>a\<close> followed
  by 3000 stars compiles; in its automaton the start state heads a chain of 3000 epsilon
  transitions down to the start state of the literal. With room for 3000 nested
  activations of \<open>addState\<close>, the closure of the start state throws a RangeError on the
  test string \<open>a\<close>: the effect is left and sets neither an active set nor a verdict. The
  same holds whatever the room is, for the letter followed by that many stars.
\<close>

theorem deep_star_tower_counterexample:
  "compileRegexToNFA (a_stars 3000) = Some (tower_states 3000, tower_nfa 3000)
   \<and> RegexAutomata 3000 (a_stars 3000) (js ''a'') = Some (Inl RangeError)"
  using compile_a_stars [of 3000] RegexAutomata_tower_overflow [OF order_refl js_a_nonempty, of 3000]
  by (rule conjI)

text \<open>
  C8, amended. Take a compiled automaton and a call stack with room for more nested
  activations of \<open>addState\<close> than the automaton has states. Then every call of
  \<open>addState\<close>, from any state and with any set, returns: a set that holds the given set
  and the state. A state already in the set is returned from at once and not expanded
  again; this is why epsilon cycles do no harm and why the nesting never exceeds the
  number of states by more than one. And the simulation returns for every test string,
  the empty one and those with symbols that label no transition included: a list of
  distinct identifiers of states of the automaton (possibly empty) and a verdict.
\<close>

theorem simulation_returns_within_stack:
  assumes "compileRegexToNFA pattern = Some (h, nfa)" and "length h < stack"
  shows "(\<exists>r. addState stack h s visited = Inr r \<and> set visited \<subseteq> set r \<and> s \<in> set r)
       \<and> (s \<in> set visited \<longrightarrow> addState stack h s visited = Inr visited)
       \<and> (\<exists>activeIds matchFound.
            simulate stack h nfa testString = Inr (activeIds, matchFound)
            \<and> distinct activeIds \<and> set activeIds \<subseteq> state_id ` set h)"
proof -
  note wf = compile_wf [OF assms(1)]
  from wf(2) have s: "nfa_start nfa < length h"
    by (simp add: wf_fragment_def)
  have "unvisited h visited < stack"
    using unvisited_le_length [of h visited] assms(2) by simp
  then obtain r where r: "addState stack h s visited = Inr r"
    using addState_returns(1) by blast
  have 1: "\<exists>r. addState stack h s visited = Inr r \<and> set visited \<subseteq> set r \<and> s \<in> set r"
    using r addState_grows(1) [OF r] by simp
  from assms(2) obtain d where "stack = Suc d" by (cases stack) auto
  then have 2: "s \<in> set visited \<longrightarrow> addState stack h s visited = Inr visited"
    by simp
  from simulate_returns [OF assms(2)] obtain activeIds matchFound where
    sim: "simulate stack h nfa testString = Inr (activeIds, matchFound)" by blast
  have 3: "\<exists>activeIds matchFound.
            simulate stack h nfa testString = Inr (activeIds, matchFound)
            \<and> distinct activeIds \<and> set activeIds \<subseteq> state_id ` set h"
    using sim simulate_ok [OF wf(1) s sim] by (simp add: state_ids_arena [OF wf(1)])
  from 1 2 3 show ?thesis by simp
qed

theorem simulation_returns_within_stack_witness:
  "compileRegexToNFA (js ''a*'') = Some (a_star_states, a_star_nfa)
   \<and> length a_star_states < (5::nat)
   \<and> (\<exists>r. addState 5 a_star_states 1 [2, 0, 1] = Inr r \<and> set [2, 0, 1] \<subseteq> set r \<and> 1 \<in> set r)
   \<and> (1::nat) \<in> set [2, 0, 1]
   \<and> addState 5 a_star_states 1 [2, 0, 1] = Inr [2, 0, 1]
   \<and> (\<exists>activeIds matchFound.
        simulate 5 a_star_states a_star_nfa (js ''b'') = Inr (activeIds, matchFound)
        \<and> distinct activeIds \<and> set activeIds \<subseteq> state_id ` set a_star_states)"
proof -
  have l: "length a_star_states < (5::nat)"
    by (simp add: a_star_states_def)
  have m: "(1::nat) \<in> set [2, 0, 1]"
    by simp
  from simulation_returns_within_stack [OF compile_a_star l, of 1 "[2, 0, 1]" "js ''b''"]
    compile_a_star l m
  show ?thesis
    by blast
qed

section \<open>The empty test string\<close>

lemma RegexAutomata_a_star_empty: "RegexAutomata stack (js ''a*'') [] = Some (Inr ([2], False))"
  by (simp add: RegexAutomata_def compile_a_star simulate_def a_star_states_def a_star_nfa_def)

lemma start_closure_a_star: "start_closure (js ''a*'') = Some ([2, 0, 3], True)"
  by code_simp

text \<open>
  C1, as the claim states it, fails: for \<open>a*\<close> and the empty test string the component
  reports the start state alone and no match, while the closure of the start state is
  the states 2, 0 and 3, of which 3 is accepting. The room on the call stack plays no
  part, since \<open>addState\<close> is not called; it is set to 10000 activations here.
\<close>

theorem empty_test_string_counterexample:
  "RegexAutomata 10000 (js ''a*'') [] = Some (Inr ([2], False)) \<and>
   start_closure (js ''a*'') = Some ([2, 0, 3], True)"
  using RegexAutomata_a_star_empty [of 10000] start_closure_a_star by (rule conjI)

text \<open>
  C1, amended. For every pattern that compiles, the simulation on the empty test string
  takes the early return, whatever the room on the call stack: the active set is the
  identifier of the start state alone (no closure is taken) and the verdict is false,
  whether or not the closure of the start state holds an accepting state.
\<close>

theorem empty_test_string_guard:
  assumes "compileRegexToNFA pattern = Some (h, nfa)"
  shows "RegexAutomata stack pattern [] = Some (Inr ([state_id (h ! nfa_start nfa)], False))
       \<and> nfa_start nfa < length h"
  using assms compile_wf(2) [OF assms]
  by (simp add: RegexAutomata_def simulate_def wf_fragment_def)

theorem empty_test_string_guard_witness:
  "compileRegexToNFA (js ''a*'') = Some (a_star_states, a_star_nfa) \<and>
   RegexAutomata 0 (js ''a*'') [] =
     Some (Inr ([state_id (a_star_states ! nfa_start a_star_nfa)], False)) \<and>
   nfa_start a_star_nfa < length a_star_states"
  using empty_test_string_guard [OF compile_a_star, of 0] compile_a_star by simp

section \<open>The composite example\<close>

lemma sim_abb:
  "simulate 4 abb_states abb_nfa (js ''abb'') = Inr ([3, 5, 4, 0, 2, 7, 8, 13], True)"
  by code_simp

lemma sim_aababb:
  "simulate 4 abb_states abb_nfa (js ''aababb'') = Inr ([3, 5, 4, 0, 2, 7, 8, 13], True)"
  by code_simp

lemma sim_bbbabb:
  "simulate 4 abb_states abb_nfa (js ''bbbabb'') = Inr ([3, 5, 4, 0, 2, 7, 8, 13], True)"
  by code_simp

lemma sim_ababb:
  "simulate 4 abb_states abb_nfa (js ''ababb'') = Inr ([3, 5, 4, 0, 2, 7, 8, 13], True)"
  by code_simp

lemma sim_ab:
  "simulate 4 abb_states abb_nfa (js ''ab'') = Inr ([3, 5, 4, 0, 2, 7, 8, 11, 12], False)"
  by code_simp

lemma sim_abbb:
  "simulate 4 abb_states abb_nfa (js ''abbb'') = Inr ([3, 5, 4, 0, 2, 7, 8], False)"
  by code_simp

lemma sim_a:
  "simulate 4 abb_states abb_nfa (js ''a'') = Inr ([1, 5, 4, 0, 2, 7, 8, 9, 10], False)"
  by code_simp

lemma sim_empty: "simulate stack abb_states abb_nfa [] = Inr ([6], False)"
  by (simp add: simulate_def abb_states_def abb_nfa_def)

lemma isMatch_abb:
  "simulate 4 abb_states abb_nfa t = Inr (ids, verdict) \<Longrightarrow> 4 \<le> stack \<Longrightarrow>
   isMatch stack (js ''(a|b)*abb'') t = Some (Inr verdict)"
  using simulate_stack_mono [of 4 abb_states abb_nfa t "(ids, verdict)" stack]
  by (simp add: isMatch_def RegexAutomata_def compile_abb)

lemma isMatch_abb_empty: "isMatch stack (js ''(a|b)*abb'') [] = Some (Inr False)"
  by (simp add: isMatch_def RegexAutomata_def compile_abb sim_empty)

text \<open>
  Four nested activations is the least room with which these simulations return: after
  the first character the closure runs down the chain of states 1 (or 3), 5, 4, 0. With
  room for three it overflows.
\<close>

lemma abb_overflow: "simulate 3 abb_states abb_nfa (js ''abb'') = Inl RangeError"
  by code_simp

text \<open>
  C4. The automaton of \<open>(a|b)*abb\<close> accepts \<open>abb\<close>, \<open>aababb\<close>, \<open>bbbabb\<close> and
  \<open>ababb\<close>, and rejects \<open>ab\<close>, \<open>abbb\<close>, \<open>a\<close> and the empty string, on every call
  stack with room for four nested activations of \<open>addState\<close>, the length of the longest
  chain of epsilon transitions these simulations run down.
\<close>

theorem abb_verdicts:
  assumes "4 \<le> stack"
  shows "isMatch stack (js ''(a|b)*abb'') (js ''abb'') = Some (Inr True) \<and>
   isMatch stack (js ''(a|b)*abb'') (js ''aababb'') = Some (Inr True) \<and>
   isMatch stack (js ''(a|b)*abb'') (js ''bbbabb'') = Some (Inr True) \<and>
   isMatch stack (js ''(a|b)*abb'') (js ''ababb'') = Some (Inr True) \<and>
   isMatch stack (js ''(a|b)*abb'') (js ''ab'') = Some (Inr False) \<and>
   isMatch stack (js ''(a|b)*abb'') (js ''abbb'') = Some (Inr False) \<and>
   isMatch stack (js ''(a|b)*abb'') (js ''a'') = Some (Inr False) \<and>
   isMatch stack (js ''(a|b)*abb'') [] = Some (Inr False)"
  using isMatch_abb [OF sim_abb assms] isMatch_abb [OF sim_aababb assms]
    isMatch_abb [OF sim_bbbabb assms] isMatch_abb [OF sim_ababb assms]
    isMatch_abb [OF sim_ab assms] isMatch_abb [OF sim_abbb assms]
    isMatch_abb [OF sim_a assms] isMatch_abb_empty [of stack]
  by blast

theorem abb_verdicts_witness:
  "(4::nat) \<le> 4 \<and>
   isMatch 4 (js ''(a|b)*abb'') (js ''abb'') = Some (Inr True) \<and>
   isMatch 4 (js ''(a|b)*abb'') (js ''aababb'') = Some (Inr True) \<and>
   isMatch 4 (js ''(a|b)*abb'') (js ''bbbabb'') = Some (Inr True) \<and>
   isMatch 4 (js ''(a|b)*abb'') (js ''ababb'') = Some (Inr True) \<and>
   isMatch 4 (js ''(a|b)*abb'') (js ''ab'') = Some (Inr False) \<and>
   isMatch 4 (js ''(a|b)*abb'') (js ''abbb'') = Some (Inr False) \<and>
   isMatch 4 (js ''(a|b)*abb'') (js ''a'') = Some (Inr False) \<and>
   isMatch 4 (js ''(a|b)*abb'') [] = Some (Inr False)"
proof -
  have l: "(4::nat) \<le> 4"
    by simp
  from abb_verdicts [OF l] l show ?thesis
    by blast
qed

section \<open>Closure under epsilon transitions\<close>








section \<open>The character \<open>\<epsilon>\<close> in a pattern\<close>



lemma not_surrogate_EPSILON [simp]:
  "\<not> isHighSurrogate 0x3B5" "\<not> isLowSurrogate 0x3B5"
  by (simp_all add: isHighSurrogate_def isLowSurrogate_def)









lemma EPSILON_not_paren [simp]: "EPSILON \<noteq> LPAREN" "EPSILON \<noteq> RPAREN"
  by (simp_all add: EPSILON_def LPAREN_def RPAREN_def)


lemma literal_reads:
  "read_transitions (states (literal_result \<sigma> char)) (length (states \<sigma>)) char =
     Some [length (states \<sigma>) + 1]"
  by (simp add: literal_result_def read_addTransition)


















end
